theory Spec2Isabelle
  imports Main
begin

section \<open>Python built-ins used by the two scripts\<close>

text \<open>
  Python integers are unbounded, so they are \<open>int\<close>. The scripts use three built-ins on
  them: \<open>str(n)\<close>, the slice \<open>s[::-1]\<close> (list reversal, \<open>rev\<close>) and \<open>int(s)\<close>.
  \<open>str\<close> writes the decimal digits of the magnitude, most significant first, after a
  minus sign for a negative number. \<open>int\<close> raises \<open>ValueError\<close> on a string that is not
  an optional sign followed by at least one decimal digit. (White space and underscores,
  which \<open>int\<close> also accepts, never occur in a reversed \<open>str(n)\<close> and are not
  modelled.)

  CPython limits both conversions: \<open>str(n)\<close> raises \<open>ValueError\<close> when \<open>n\<close> has more
  than \<open>sys.get_int_max_str_digits()\<close> decimal digits, and so does \<open>int(s)\<close> when \<open>s\<close>
  has more digits than that. The default limit is 4300, and neither script changes it.
\<close>

datatype error = ValueError

definition int_max_str_digits :: nat where
  "int_max_str_digits = 4300"

definition digit_char :: "nat \<Rightarrow> char" where
  "digit_char d = ''0123456789'' ! d"

definition is_digit :: "char \<Rightarrow> bool" where
  "is_digit c = (c \<in> set ''0123456789'')"

definition digit_val :: "char \<Rightarrow> nat" where
  "digit_val c = of_char c - 48"

function str_nat :: "nat \<Rightarrow> string" where
  "str_nat n = (if n < 10 then [digit_char n]
                else str_nat (n div 10) @ [digit_char (n mod 10)])"
  by pat_completeness auto
termination
  by (relation "measure (\<lambda>n. n)") auto

text \<open>
  \<open>decimal n\<close> is the text that \<open>str(n)\<close> returns when it returns; \<open>str\<close> checks the
  number of its digits, the sign not counted, against the limit.
\<close>

definition decimal :: "int \<Rightarrow> string" where
  "decimal n = (if n < 0 then CHR ''-'' # str_nat (nat (- n)) else str_nat (nat n))"

definition str :: "int \<Rightarrow> error + string" where
  "str n = (if int_max_str_digits < length (str_nat (nat \<bar>n\<bar>)) then Inl ValueError
            else Inr (decimal n))"

definition parse_digits :: "string \<Rightarrow> nat" where
  "parse_digits s = foldl (\<lambda>acc c. acc * 10 + digit_val c) 0 s"

definition int_of_digits :: "string \<Rightarrow> error + nat" where
  "int_of_digits s =
     (if s \<noteq> [] \<and> list_all is_digit s then
        (if int_max_str_digits < length s then Inl ValueError else Inr (parse_digits s))
      else Inl ValueError)"

fun int_of_str :: "string \<Rightarrow> error + int" where
  "int_of_str [] = Inl ValueError"
| "int_of_str (c # cs) =
     (if c = CHR ''-'' then
        (case int_of_digits cs of Inl e \<Rightarrow> Inl e | Inr v \<Rightarrow> Inr (- int v))
      else if c = CHR ''+'' then
        (case int_of_digits cs of Inl e \<Rightarrow> Inl e | Inr v \<Rightarrow> Inr (int v))
      else
        (case int_of_digits (c # cs) of Inl e \<Rightarrow> Inl e | Inr v \<Rightarrow> Inr (int v)))"

section \<open>lychrel\_tree.py: string-based primitives and the chain generator\<close>

text \<open>
  Both primitives call \<open>str\<close>, so both raise what it raises.
\<close>

definition is_palindrome_tree :: "int \<Rightarrow> error + bool" where
  "is_palindrome_tree n = (case str n of Inl e \<Rightarrow> Inl e | Inr s \<Rightarrow> Inr (s = rev s))"

definition reverse_num :: "int \<Rightarrow> error + int" where
  "reverse_num n = (case str n of Inl e \<Rightarrow> Inl e | Inr s \<Rightarrow> int_of_str (rev s))"

text \<open>
  \<open>lychrel_chain\<close>: the loop \<open>for _ in range(max_iter)\<close> runs \<open>nat max_iter\<close> times
  (not at all for \<open>max_iter \<le> 0\<close>); its state is the chain built so far and \<open>current\<close>.
  An exception of \<open>reverse_num\<close> or of \<open>is_palindrome\<close> leaves the function.
\<close>

fun lychrel_chain_loop :: "nat \<Rightarrow> int list \<Rightarrow> int \<Rightarrow> error + (int list \<times> bool)" where
  "lychrel_chain_loop 0 chain current = Inr (chain, False)"
| "lychrel_chain_loop (Suc k) chain current =
     (case reverse_num current of
        Inl e \<Rightarrow> Inl e
      | Inr r \<Rightarrow>
          (let next_val = current + r;
               chain' = chain @ [next_val]
           in case is_palindrome_tree next_val of
                Inl e \<Rightarrow> Inl e
              | Inr pal \<Rightarrow>
                  if pal then Inr (chain', True)
                  else lychrel_chain_loop k chain' next_val))"

definition lychrel_chain :: "int \<Rightarrow> int \<Rightarrow> error + (int list \<times> bool)" where
  "lychrel_chain n max_iter = lychrel_chain_loop (nat max_iter) [n] n"

section \<open>lychrel\_tree.py: the graph builder\<close>

record graph =
  adjacency :: "int \<rightharpoonup> int set"
  level_of :: "int \<rightharpoonup> nat"
  lychrel_seeds :: "int set"

definition empty_graph :: graph where
  "empty_graph = \<lparr>adjacency = Map.empty, level_of = Map.empty, lychrel_seeds = {}\<rparr>"

definition add_edge :: "(int \<rightharpoonup> int set) \<Rightarrow> int \<Rightarrow> int \<Rightarrow> (int \<rightharpoonup> int set)" where
  "add_edge adj u v =
     (case adj u of None \<Rightarrow> adj(u \<mapsto> {v}) | Some vs \<Rightarrow> adj(u \<mapsto> insert v vs))"

text \<open>
  The source sets a level in two places with the same four lines:
  \<open>if node not in level_of: level_of[node] = i else: level_of[node] = min(level_of[node], i)\<close>.
\<close>

definition set_level :: "(int \<rightharpoonup> nat) \<Rightarrow> int \<Rightarrow> nat \<Rightarrow> (int \<rightharpoonup> nat)" where
  "set_level lv node i =
     (case lv node of None \<Rightarrow> lv(node \<mapsto> i) | Some l \<Rightarrow> lv(node \<mapsto> min l i))"

text \<open>
  One pass of the body of \<open>for i, node in enumerate(chain)\<close>. The index runs over
  \<open>[0..<length chain]\<close>, so \<open>chain ! i\<close> is in range, and \<open>chain ! (i + 1)\<close> is read
  only under the guard \<open>i < len(chain) - 1\<close>.
\<close>

definition visit :: "int list \<Rightarrow> (int \<rightharpoonup> int set) \<times> (int \<rightharpoonup> nat) \<Rightarrow> nat
                     \<Rightarrow> (int \<rightharpoonup> int set) \<times> (int \<rightharpoonup> nat)" where
  "visit chain st i =
     (let node = chain ! i;
          lv1 = set_level (snd st) node i
      in if i < length chain - 1 then
           (let nxt = chain ! (i + 1)
            in (add_edge (fst st) node nxt, set_level lv1 nxt (i + 1)))
         else (fst st, lv1))"

definition process_seed :: "int \<Rightarrow> int \<Rightarrow> graph \<Rightarrow> error + graph" where
  "process_seed max_iter n g =
     (case lychrel_chain n max_iter of
        Inl e \<Rightarrow> Inl e
      | Inr (chain, found_pal) \<Rightarrow>
          (let seeds' = (if \<not> found_pal then insert n (lychrel_seeds g) else lychrel_seeds g);
               st = foldl (visit chain) (adjacency g, level_of g) [0..<length chain]
           in Inr \<lparr>adjacency = fst st, level_of = snd st, lychrel_seeds = seeds'\<rparr>))"

fun seeds_loop :: "int \<Rightarrow> int list \<Rightarrow> graph \<Rightarrow> error + graph" where
  "seeds_loop max_iter [] g = Inr g"
| "seeds_loop max_iter (n # ns) g =
     (case process_seed max_iter n g of
        Inl e \<Rightarrow> Inl e
      | Inr g' \<Rightarrow> seeds_loop max_iter ns g')"

text \<open>\<open>range(start, end + 1)\<close> is the list \<open>[start..end]\<close>, empty when \<open>end < start\<close>.\<close>

definition build_lychrel_graph :: "int \<Rightarrow> int \<Rightarrow> int \<Rightarrow> error + graph" where
  "build_lychrel_graph start endv max_iter = seeds_loop max_iter [start..endv] empty_graph"

section \<open>lychrel\_graph.py: arithmetic primitives and the series counter\<close>

text \<open>
  The loop \<open>while num > 0: rev = rev * 10 + num % 10; num //= 10\<close>, which the source
  writes out twice (in \<open>reverse_int\<close> and in \<open>is_palindrome\<close>). Python's \<open>//\<close> and
  \<open>%\<close> by the positive 10 are \<open>div\<close> and \<open>mod\<close> on \<open>int\<close>.
\<close>

function reverse_loop :: "int \<Rightarrow> int \<Rightarrow> int" where
  "reverse_loop rev_acc num =
     (if num > 0 then reverse_loop (rev_acc * 10 + num mod 10) (num div 10) else rev_acc)"
  by pat_completeness auto
termination
  by (relation "measure (\<lambda>(rev_acc, num). nat num)") auto

definition reverse_int :: "int \<Rightarrow> int" where
  "reverse_int num = reverse_loop 0 num"

definition is_palindrome_graph :: "int \<Rightarrow> bool" where
  "is_palindrome_graph num = (if num < 0 then False else reverse_loop 0 num = num)"

text \<open>
  \<open>palindrome_iterations\<close>: the loop variable runs over \<open>range(1, max_iter + 1)\<close>, the
  list \<open>[1..max_iter]\<close>; leaving the loop at its end returns \<open>max_iter\<close>.
\<close>

fun palindrome_iterations_loop :: "int list \<Rightarrow> int \<Rightarrow> int \<Rightarrow> int" where
  "palindrome_iterations_loop [] current max_iter = max_iter"
| "palindrome_iterations_loop (i # rest) current max_iter =
     (let current' = current + reverse_int current
      in if is_palindrome_graph current' then i
         else palindrome_iterations_loop rest current' max_iter)"

definition palindrome_iterations :: "int \<Rightarrow> int \<Rightarrow> int" where
  "palindrome_iterations n max_iter = palindrome_iterations_loop [1..max_iter] n max_iter"

text \<open>
  \<open>lychrel_graph_save\<close>, its computation only (the three lists it plots and prints).
\<close>

record series =
  x_vals :: "int list"
  y_vals :: "int list"
  no_palindrome_nums :: "int list"

definition count_seed :: "int \<Rightarrow> series \<Rightarrow> int \<Rightarrow> series" where
  "count_seed max_iter s n =
     (let iters_needed = palindrome_iterations n max_iter
      in \<lparr>x_vals = x_vals s @ [n],
          y_vals = y_vals s @ [iters_needed],
          no_palindrome_nums =
            (if iters_needed = max_iter then no_palindrome_nums s @ [n]
             else no_palindrome_nums s)\<rparr>)"

definition lychrel_graph_save :: "int \<Rightarrow> int \<Rightarrow> int \<Rightarrow> series" where
  "lychrel_graph_save start endv max_iter =
     foldl (count_seed max_iter) \<lparr>x_vals = [], y_vals = [], no_palindrome_nums = []\<rparr>
       [start..endv]"

section \<open>Merging partial graphs\<close>

text \<open>
  The source has no merge operation: it updates one accumulator in place. The
  specification describes one: two partial graphs are merged by the union of their edge
  sets per node, the pointwise minimum of their levels, and the union of their flagged
  seeds. The three definitions below follow those words; they are compared with
  \<open>build_lychrel_graph\<close> further down.
\<close>

definition merge_adjacency ::
  "(int \<rightharpoonup> int set) \<Rightarrow> (int \<rightharpoonup> int set) \<Rightarrow> (int \<rightharpoonup> int set)" where
  "merge_adjacency a1 a2 =
     (\<lambda>u. case a1 u of
            None \<Rightarrow> a2 u
          | Some vs \<Rightarrow> (case a2 u of None \<Rightarrow> Some vs | Some ws \<Rightarrow> Some (vs \<union> ws)))"

definition merge_level :: "(int \<rightharpoonup> nat) \<Rightarrow> (int \<rightharpoonup> nat) \<Rightarrow> (int \<rightharpoonup> nat)" where
  "merge_level l1 l2 =
     (\<lambda>x. case l1 x of
            None \<Rightarrow> l2 x
          | Some a \<Rightarrow> (case l2 x of None \<Rightarrow> Some a | Some b \<Rightarrow> Some (min a b)))"

definition merge_graph :: "graph \<Rightarrow> graph \<Rightarrow> graph" where
  "merge_graph g1 g2 =
     \<lparr>adjacency = merge_adjacency (adjacency g1) (adjacency g2),
      level_of = merge_level (level_of g1) (level_of g2),
      lychrel_seeds = lychrel_seeds g1 \<union> lychrel_seeds g2\<rparr>"

definition merge_all :: "graph list \<Rightarrow> graph" where
  "merge_all gs = foldr merge_graph gs empty_graph"

section \<open>Notions used in the proofs\<close>

text \<open>
  Decimal digits, least significant first, and the number a digit list stands for. A
  digit list is canonical when every digit is below ten and the most significant one is
  not zero.
\<close>

function digits :: "nat \<Rightarrow> nat list" where
  "digits n = (if n = 0 then [] else n mod 10 # digits (n div 10))"
  by pat_completeness auto
termination
  by (relation "measure (\<lambda>n. n)") auto

fun val :: "nat list \<Rightarrow> nat" where
  "val [] = 0"
| "val (d # ds) = d + 10 * val ds"

definition canonical :: "nat list \<Rightarrow> bool" where
  "canonical ds = ((\<forall>d \<in> set ds. d < 10) \<and> (ds \<noteq> [] \<longrightarrow> last ds \<noteq> 0))"

text \<open>
  One reverse-and-add step on the arithmetic primitives, and the value at which the
  iteration stops after at most \<open>k\<close> steps: the first palindrome after the start, or
  the value at step \<open>k\<close>.
\<close>

definition reverse_add :: "int \<Rightarrow> int" where
  "reverse_add x = x + reverse_int x"

fun last_value :: "nat \<Rightarrow> int \<Rightarrow> int" where
  "last_value 0 cur = cur"
| "last_value (Suc k) cur =
     (if is_palindrome_graph (reverse_add cur) then reverse_add cur
      else last_value k (reverse_add cur))"

text \<open>
  A graph as the sets it stands for: a set of edges, and a set of occurrences (a node
  with an index at which some chain holds it). The adjacency of a node is the set of its
  successors, absent when there is none; its level is its least index.
\<close>

definition cedges :: "int list \<Rightarrow> (int \<times> int) set" where
  "cedges c = {(c ! i, c ! Suc i) | i. Suc i < length c}"

definition coccs :: "int list \<Rightarrow> (int \<times> nat) set" where
  "coccs c = {(c ! i, i) | i. i < length c}"

definition adj_of :: "(int \<times> int) set \<Rightarrow> (int \<rightharpoonup> int set)" where
  "adj_of E = (\<lambda>u. if E `` {u} = {} then None else Some (E `` {u}))"

definition lvl_of :: "(int \<times> nat) set \<Rightarrow> (int \<rightharpoonup> nat)" where
  "lvl_of P = (\<lambda>x. if P `` {x} = {} then None else Some (LEAST i. (x, i) \<in> P))"

definition mk_graph :: "(int \<times> int) set \<Rightarrow> (int \<times> nat) set \<Rightarrow> int set \<Rightarrow> graph" where
  "mk_graph E P S = \<lparr>adjacency = adj_of E, level_of = lvl_of P, lychrel_seeds = S\<rparr>"

definition chain_ok :: "int \<Rightarrow> int \<Rightarrow> bool" where
  "chain_ok b n = (\<exists>c f. lychrel_chain n b = Inr (c, f))"

definition chain_of :: "int \<Rightarrow> int \<Rightarrow> int list" where
  "chain_of b n = (case lychrel_chain n b of Inr (c, f) \<Rightarrow> c | Inl e \<Rightarrow> [])"

definition found_of :: "int \<Rightarrow> int \<Rightarrow> bool" where
  "found_of b n = (case lychrel_chain n b of Inr (c, f) \<Rightarrow> f | Inl e \<Rightarrow> False)"

definition all_edges :: "int \<Rightarrow> int set \<Rightarrow> (int \<times> int) set" where
  "all_edges b N = (\<Union>n \<in> N. cedges (chain_of b n))"

definition all_occs :: "int \<Rightarrow> int set \<Rightarrow> (int \<times> nat) set" where
  "all_occs b N = (\<Union>n \<in> N. coccs (chain_of b n))"

definition flagged :: "int \<Rightarrow> int set \<Rightarrow> int set" where
  "flagged b N = {n \<in> N. \<not> found_of b n}"

section \<open>Decimal digits\<close>

declare digits.simps [simp del]
declare reverse_loop.simps [simp del]
declare str_nat.simps [simp del]

lemma val_digits: "val (digits n) = n"
  by (induction n rule: digits.induct) (subst digits.simps, simp)

lemma digits_lt10: "d \<in> set (digits n) \<Longrightarrow> d < 10"
  by (induction n rule: digits.induct) (subst (asm) digits.simps, auto split: if_splits)

lemma digits_last: "digits n \<noteq> [] \<Longrightarrow> last (digits n) \<noteq> 0"
proof (induction n rule: digits.induct)
  case (1 n)
  show ?case
  proof (cases "n = 0")
    case True
    with "1.prems" show ?thesis by (simp add: digits.simps)
  next
    case False
    show ?thesis
    proof (cases "n div 10 = 0")
      case True
      with False have lt: "n < 10" and pos: "n mod 10 \<noteq> 0" by auto
      have "digits n = [n mod 10]"
        using False True by (subst digits.simps) (simp add: digits.simps)
      with pos show ?thesis by simp
    next
      case d: False
      then have ne: "digits (n div 10) \<noteq> []" by (subst digits.simps) simp
      have "digits n = n mod 10 # digits (n div 10)" using False by (subst digits.simps) simp
      with ne "1.IH"[OF False ne] show ?thesis by simp
    qed
  qed
qed

lemma canonical_digits: "canonical (digits n)"
  using digits_lt10 digits_last by (auto simp: canonical_def)

lemma digits_val: "canonical ds \<Longrightarrow> digits (val ds) = ds"
proof (induction ds)
  case Nil
  show ?case by (simp add: digits.simps)
next
  case (Cons d ds)
  have d: "d < 10" using Cons.prems by (simp add: canonical_def)
  have c: "canonical ds" using Cons.prems by (auto simp: canonical_def split: if_splits)
  have nz: "d + 10 * val ds \<noteq> 0"
  proof (cases "ds = []")
    case True
    with Cons.prems show ?thesis by (simp add: canonical_def)
  next
    case False
    have "val ds \<noteq> 0"
    proof
      assume "val ds = 0"
      with Cons.IH[OF c] have "ds = []" by (simp add: digits.simps)
      with False show False by simp
    qed
    then show ?thesis by simp
  qed
  have "digits (val (d # ds)) = (d + 10 * val ds) mod 10 # digits ((d + 10 * val ds) div 10)"
    using nz by (subst digits.simps) simp
  also have "\<dots> = d # digits (val ds)" using d by simp
  finally show ?case using Cons.IH[OF c] by simp
qed

lemma val_append: "val (xs @ ys) = val xs + 10 ^ length xs * val ys"
  by (induction xs) (auto simp: algebra_simps)

lemma val_upper: "\<forall>d \<in> set ds. d < 10 \<Longrightarrow> val ds < 10 ^ length ds"
  by (induction ds) auto

lemma val_lower: "ds \<noteq> [] \<Longrightarrow> last ds \<noteq> 0 \<Longrightarrow> 10 ^ (length ds - 1) \<le> val ds"
proof (induction ds rule: rev_induct)
  case Nil
  then show ?case by simp
next
  case (snoc x xs)
  then have "1 \<le> x" by simp
  then have "(10::nat) ^ length xs * 1 \<le> 10 ^ length xs * x" by (rule mult_le_mono2)
  then have a: "(10::nat) ^ length xs \<le> 10 ^ length xs * x" by simp
  have "(10::nat) ^ length xs \<le> val xs + 10 ^ length xs * x"
    by (rule trans_le_add2) (rule a)
  then show ?case by (simp add: val_append)
qed

lemma foldl_val: "foldl (\<lambda>acc d. acc * 10 + d) a ds = a * 10 ^ length ds + val (rev ds)"
  by (induction ds arbitrary: a) (auto simp: val_append algebra_simps)

lemma reverse_loop_nat:
  "0 \<le> num \<Longrightarrow> 0 \<le> r \<Longrightarrow>
   reverse_loop r num = int (foldl (\<lambda>acc d. acc * 10 + d) (nat r) (digits (nat num)))"
proof (induction r num rule: reverse_loop.induct)
  case (1 r num)
  show ?case
  proof (cases "num > 0")
    case True
    then have dg: "digits (nat num) = nat num mod 10 # digits (nat num div 10)"
      by (subst digits.simps) simp
    have a: "nat (num div 10) = nat num div 10" using True by (simp add: nat_div_distrib)
    have b: "nat (r * 10 + num mod 10) = nat r * 10 + nat num mod 10"
      using True "1.prems" by (simp add: nat_add_distrib nat_mult_distrib nat_mod_distrib)
    have "reverse_loop r num = reverse_loop (r * 10 + num mod 10) (num div 10)"
      using True by (subst reverse_loop.simps) simp
    also have "\<dots> = int (foldl (\<lambda>acc d. acc * 10 + d) (nat (r * 10 + num mod 10)) (digits (nat (num div 10))))"
      using True "1.prems" by (intro "1.IH") auto
    finally show ?thesis using dg a b by simp
  next
    case False
    with "1.prems" have "num = 0" by simp
    then show ?thesis using "1.prems" by (subst reverse_loop.simps) (simp add: digits.simps)
  qed
qed

lemma reverse_int_val: "0 \<le> n \<Longrightarrow> reverse_int n = int (val (rev (digits (nat n))))"
  by (simp add: reverse_int_def reverse_loop_nat foldl_val)

lemma lt10_cases: "d < (10::nat) \<Longrightarrow> d \<in> {0,1,2,3,4,5,6,7,8,9}"
  by auto

lemma digit_char_props:
  assumes "d < 10"
  shows "digit_val (digit_char d) = d" "is_digit (digit_char d)"
        "digit_char d \<noteq> CHR ''-''" "digit_char d \<noteq> CHR ''+''"
  using lt10_cases[OF assms] by (auto simp: digit_char_def digit_val_def is_digit_def)

lemma digit_char_inj: "d < 10 \<Longrightarrow> e < 10 \<Longrightarrow> digit_char d = digit_char e \<Longrightarrow> d = e"
  by (metis digit_char_props(1))

lemma map_digit_char_inj:
  "\<forall>d \<in> set ds. d < 10 \<Longrightarrow> \<forall>e \<in> set es. e < 10 \<Longrightarrow>
   map digit_char ds = map digit_char es \<Longrightarrow> ds = es"
proof (induction ds arbitrary: es)
  case Nil
  then show ?case by simp
next
  case (Cons d ds)
  then obtain e es' where es: "es = e # es'" by (cases es) auto
  with Cons.prems have "digit_char d = digit_char e" "map digit_char ds = map digit_char es'"
    "d < 10" "e < 10" by auto
  then have "d = e" by (metis digit_char_inj)
  moreover have "ds = es'" using Cons.IH[of es'] Cons.prems es by auto
  ultimately show ?case using es by simp
qed

lemma str_nat_digits:
  "str_nat n = (if n = 0 then [digit_char 0] else map digit_char (rev (digits n)))"
proof (induction n rule: str_nat.induct)
  case (1 n)
  show ?case
  proof (cases "n < 10")
    case True
    show ?thesis
    proof (cases "n = 0")
      case z: True
      then show ?thesis by (subst str_nat.simps) simp
    next
      case False
      with True have "digits n = [n]" by (subst digits.simps) (simp add: digits.simps)
      with True False show ?thesis by (subst str_nat.simps) simp
    qed
  next
    case False
    then have nz: "n div 10 \<noteq> 0" "n \<noteq> 0" by auto
    have dg: "digits n = n mod 10 # digits (n div 10)" using nz by (subst digits.simps) simp
    have "str_nat n = str_nat (n div 10) @ [digit_char (n mod 10)]"
      using False by (subst str_nat.simps) simp
    also have "str_nat (n div 10) = map digit_char (rev (digits (n div 10)))"
      using "1.IH"[OF False] nz by simp
    finally show ?thesis using nz dg by simp
  qed
qed

lemma foldl_digit_char:
  "\<forall>d \<in> set ds. d < 10 \<Longrightarrow>
   foldl (\<lambda>acc c. acc * 10 + digit_val c) a (map digit_char ds) =
   foldl (\<lambda>acc d. acc * 10 + d) a ds"
  by (induction ds arbitrary: a) (auto simp: digit_char_props)

lemma parse_digits_map:
  "\<forall>d \<in> set ds. d < 10 \<Longrightarrow> parse_digits (map digit_char ds) = val (rev ds)"
  by (simp add: parse_digits_def foldl_digit_char foldl_val)

lemma int_of_str_digits:
  assumes "\<forall>d \<in> set ds. d < 10" "ds \<noteq> []" "length ds \<le> int_max_str_digits"
  shows "int_of_str (map digit_char ds) = Inr (int (val (rev ds)))"
proof -
  obtain d ds' where ds: "ds = d # ds'" using assms(2) by (cases ds) auto
  have d: "d < 10" using assms(1) ds by simp
  have all: "list_all is_digit (map digit_char ds)"
    using assms(1) by (simp add: list_all_iff digit_char_props)
  have "int_of_digits (map digit_char ds) = Inr (val (rev ds))"
    using all assms by (simp add: int_of_digits_def parse_digits_map)
  then show ?thesis using ds digit_char_props(3,4)[OF d] by simp
qed

text \<open>The number of digits against the limit of the conversions.\<close>

lemma digits_length_le: "n < 10 ^ k \<Longrightarrow> length (digits n) \<le> k"
proof (cases "digits n = []")
  case True
  then show ?thesis by simp
next
  case False
  assume n: "n < 10 ^ k"
  have "10 ^ (length (digits n) - 1) \<le> val (digits n)"
    using False digits_last by (intro val_lower)
  then have "(10::nat) ^ (length (digits n) - 1) \<le> n" by (simp add: val_digits)
  from this n have "(10::nat) ^ (length (digits n) - 1) < 10 ^ k" by (rule le_less_trans)
  then have "length (digits n) - 1 < k" by simp
  then show ?thesis by simp
qed

lemma digits_length_gt: "10 ^ k \<le> n \<Longrightarrow> k < length (digits n)"
proof -
  assume n: "10 ^ k \<le> n"
  have "val (digits n) < 10 ^ length (digits n)" using digits_lt10 by (intro val_upper) blast
  then have "n < 10 ^ length (digits n)" by (simp add: val_digits)
  with n have "(10::nat) ^ k < 10 ^ length (digits n)" by (rule le_less_trans)
  then show ?thesis by simp
qed

lemma cap_pos: "1 \<le> int_max_str_digits"
  by (simp add: int_max_str_digits_def)

lemma str_nat_small: "m < 10 ^ int_max_str_digits \<Longrightarrow> length (str_nat m) \<le> int_max_str_digits"
  using digits_length_le[of m int_max_str_digits] cap_pos by (simp add: str_nat_digits)

lemma str_nat_big: "10 ^ int_max_str_digits \<le> m \<Longrightarrow> int_max_str_digits < length (str_nat m)"
proof -
  assume m: "10 ^ int_max_str_digits \<le> m"
  have "(1::nat) \<le> 10 ^ int_max_str_digits" by simp
  with m have "m \<noteq> 0" by linarith
  then show ?thesis using digits_length_gt[OF m] by (simp add: str_nat_digits)
qed

lemma nat_abs_less_pow: "(nat \<bar>n\<bar> < 10 ^ k) = (\<bar>n\<bar> < 10 ^ k)"
proof -
  have "(nat \<bar>n\<bar> < 10 ^ k) = (\<bar>n\<bar> < int (10 ^ k))" by (simp add: nat_less_iff)
  then show ?thesis by simp
qed

lemma str_cases:
  "str n = (if \<bar>n\<bar> < 10 ^ int_max_str_digits then Inr (decimal n) else Inl ValueError)"
proof (cases "\<bar>n\<bar> < 10 ^ int_max_str_digits")
  case True
  then have "nat \<bar>n\<bar> < 10 ^ int_max_str_digits" by (simp add: nat_abs_less_pow)
  from str_nat_small[OF this] True show ?thesis by (simp add: str_def)
next
  case False
  then have "\<not> nat \<bar>n\<bar> < 10 ^ int_max_str_digits" by (simp add: nat_abs_less_pow)
  then have "10 ^ int_max_str_digits \<le> nat \<bar>n\<bar>" by simp
  from str_nat_big[OF this] False show ?thesis by (simp add: str_def)
qed

lemma str_Inr_decimal: "str n = Inr s \<Longrightarrow> s = decimal n \<and> \<bar>n\<bar> < 10 ^ int_max_str_digits"
  by (simp add: str_cases split: if_splits)

lemma error_is_ValueError: "(e::error) = ValueError"
  by (cases e) simp

lemma str_nat_shape:
  "\<exists>ds. ds \<noteq> [] \<and> (\<forall>d \<in> set ds. d < 10) \<and> str_nat m = map digit_char ds"
proof (cases "m = 0")
  case True
  have "[0::nat] \<noteq> [] \<and> (\<forall>d \<in> set [0::nat]. d < 10) \<and> str_nat m = map digit_char [0]"
    using True by (simp add: str_nat_digits)
  then show ?thesis by blast
next
  case False
  then have "digits m \<noteq> []" by (subst digits.simps) simp
  then have "rev (digits m) \<noteq> [] \<and> (\<forall>d \<in> set (rev (digits m)). d < 10) \<and>
             str_nat m = map digit_char (rev (digits m))"
    using False digits_lt10 by (simp add: str_nat_digits)
  then show ?thesis by blast
qed

lemma decimal_negative:
  assumes "n < 0"
  shows "\<exists>d ds ds'. d < 10 \<and> decimal n = CHR ''-'' # map digit_char ds \<and>
           rev (decimal n) = digit_char d # (map digit_char ds' @ [CHR ''-''])"
proof -
  obtain ds where ds: "ds \<noteq> []" "\<forall>d \<in> set ds. d < 10" "str_nat (nat (- n)) = map digit_char ds"
    using str_nat_shape by blast
  obtain d ds' where r: "rev ds = d # ds'" using ds(1) by (cases "rev ds") auto
  have d: "d < 10" using ds(2) r by (metis list.set_intros(1) set_rev)
  have "rev (decimal n) = digit_char d # (map digit_char ds' @ [CHR ''-''])"
    using assms ds(3) r by (simp add: decimal_def rev_map)
  moreover have "decimal n = CHR ''-'' # map digit_char ds"
    using assms ds(3) by (simp add: decimal_def)
  ultimately show ?thesis using d by blast
qed

lemma reverse_num_negative: "n < 0 \<Longrightarrow> reverse_num n = Inl ValueError"
proof -
  assume n: "n < 0"
  from decimal_negative[OF n] obtain d ds ds' where
    d: "d < 10" and r: "rev (decimal n) = digit_char d # (map digit_char ds' @ [CHR ''-''])"
    by blast
  have nd: "\<not> is_digit (CHR ''-'')" by (simp add: is_digit_def)
  have "int_of_str (rev (decimal n)) = Inl ValueError"
    using r nd digit_char_props(3,4)[OF d] by (simp add: int_of_digits_def)
  then show ?thesis by (simp add: reverse_num_def str_cases)
qed


lemma is_palindrome_tree_big:
  "10 ^ int_max_str_digits \<le> \<bar>n\<bar> \<Longrightarrow> is_palindrome_tree n = Inl ValueError"
  by (simp add: is_palindrome_tree_def str_cases)

lemma reverse_num_big: "10 ^ int_max_str_digits \<le> \<bar>n\<bar> \<Longrightarrow> reverse_num n = Inl ValueError"
  by (simp add: reverse_num_def str_cases)

lemma reverse_num_val:
  assumes "0 \<le> n" "n < 10 ^ int_max_str_digits"
  shows "reverse_num n = Inr (int (val (rev (digits (nat n)))))"
proof -
  have s: "str n = Inr (decimal n)" using assms by (simp add: str_cases)
  show ?thesis
  proof (cases "n = 0")
    case True
    have "int_of_str [digit_char 0] = Inr (int (val (rev [0])))"
      using int_of_str_digits[of "[0]"] cap_pos by simp
    then show ?thesis using True s
      by (simp add: reverse_num_def decimal_def str_nat_digits digits.simps)
  next
    case False
    with assms have pos: "nat n \<noteq> 0" by simp
    then have ne: "digits (nat n) \<noteq> []" by (subst digits.simps) simp
    have "nat n < 10 ^ int_max_str_digits" using assms nat_abs_less_pow[of n] by simp
    then have len: "length (digits (nat n)) \<le> int_max_str_digits" by (rule digits_length_le)
    have "rev (decimal n) = map digit_char (digits (nat n))"
      using pos assms by (simp add: decimal_def str_nat_digits rev_map)
    then show ?thesis
      using int_of_str_digits[of "digits (nat n)"] ne len digits_lt10 s
      by (simp add: reverse_num_def)
  qed
qed

lemma reverse_num_int:
  "0 \<le> n \<Longrightarrow> n < 10 ^ int_max_str_digits \<Longrightarrow> reverse_num n = Inr (reverse_int n)"
  by (simp add: reverse_num_val reverse_int_val)

lemma reverse_num_Inr:
  assumes "reverse_num n = Inr r"
  shows "0 \<le> n" "n < 10 ^ int_max_str_digits" "r = reverse_int n"
proof -
  show n: "0 \<le> n" using assms reverse_num_negative[of n] by (cases "n < 0") auto
  show b: "n < 10 ^ int_max_str_digits"
    using assms n reverse_num_big[of n] by (cases "n < 10 ^ int_max_str_digits") auto
  show "r = reverse_int n" using assms reverse_num_int[OF n b] by simp
qed

lemma rev_canonical_eq:
  assumes c: "canonical ds" and v: "val (rev ds) = val ds"
  shows "rev ds = ds"
proof (cases ds)
  case Nil
  then show ?thesis by simp
next
  case (Cons d ds')
  have lt: "\<forall>x \<in> set ds. x < 10" using c by (simp add: canonical_def)
  have lastnz: "last ds \<noteq> 0" using c Cons by (simp add: canonical_def)
  have "d \<noteq> 0"
  proof
    assume "d = 0"
    then have "val (rev ds) = val (rev ds')" using Cons by (simp add: val_append)
    moreover have "val (rev ds') < 10 ^ length ds'"
      using val_upper[of "rev ds'"] lt Cons by simp
    moreover have "10 ^ (length ds - 1) \<le> val ds" using val_lower[of ds] lastnz Cons by simp
    ultimately show False using v Cons by simp
  qed
  then have "canonical (rev ds)" using lt Cons by (simp add: canonical_def)
  then have "digits (val (rev ds)) = rev ds" by (rule digits_val)
  moreover have "digits (val ds) = ds" using c by (rule digits_val)
  ultimately show ?thesis using v by simp
qed

lemma is_palindrome_graph_digits:
  "0 \<le> n \<Longrightarrow> is_palindrome_graph n = (rev (digits (nat n)) = digits (nat n))"
proof -
  assume n: "0 \<le> n"
  let ?ds = "digits (nat n)"
  have "is_palindrome_graph n = (reverse_int n = n)"
    using n by (simp add: is_palindrome_graph_def reverse_int_def)
  also have "\<dots> = (val (rev ?ds) = val ?ds)"
    using n by (simp add: reverse_int_val val_digits) linarith
  also have "\<dots> = (rev ?ds = ?ds)"
    using rev_canonical_eq[OF canonical_digits] by auto
  finally show ?thesis .
qed

lemma decimal_palindrome_digits:
  "0 \<le> n \<Longrightarrow> (decimal n = rev (decimal n)) = (rev (digits (nat n)) = digits (nat n))"
proof (cases "n = 0")
  case True
  then show ?thesis by (simp add: decimal_def str_nat_digits digits.simps)
next
  case False
  assume "0 \<le> n"
  with False have pos: "nat n \<noteq> 0" by simp
  let ?ds = "digits (nat n)"
  have "(decimal n = rev (decimal n)) = (map digit_char (rev ?ds) = map digit_char ?ds)"
    using pos \<open>0 \<le> n\<close> by (auto simp: decimal_def str_nat_digits rev_map)
  also have "\<dots> = (rev ?ds = ?ds)"
    using map_digit_char_inj[of "rev ?ds" ?ds] digits_lt10 by auto
  finally show ?thesis .
qed

lemma is_palindrome_agree:
  "0 \<le> n \<Longrightarrow> n < 10 ^ int_max_str_digits \<Longrightarrow>
   is_palindrome_tree n = Inr (is_palindrome_graph n)"
  by (simp add: is_palindrome_tree_def str_cases decimal_palindrome_digits
      is_palindrome_graph_digits)

lemma is_palindrome_tree_Inr:
  assumes "is_palindrome_tree n = Inr p" "0 \<le> n"
  shows "n < 10 ^ int_max_str_digits" "p = is_palindrome_graph n"
proof -
  show b: "n < 10 ^ int_max_str_digits"
    using assms is_palindrome_tree_big[of n] by (cases "n < 10 ^ int_max_str_digits") auto
  show "p = is_palindrome_graph n" using assms is_palindrome_agree[OF assms(2) b] by simp
qed

lemma reverse_int_nonneg: "0 \<le> n \<Longrightarrow> 0 \<le> reverse_int n"
  by (simp add: reverse_int_val)

lemma reverse_int_involution:
  assumes "0 \<le> n" "n mod 10 \<noteq> 0"
  shows "reverse_int (reverse_int n) = n"
proof -
  let ?ds = "digits (nat n)"
  have pos: "nat n \<noteq> 0" using assms by auto
  have dg: "?ds = nat n mod 10 # digits (nat n div 10)" using pos by (subst digits.simps) simp
  have "nat n mod 10 \<noteq> 0" using assms by (simp add: nat_mod_distrib[symmetric] flip: nat_numeral)
  then have hd: "hd ?ds \<noteq> 0" using dg by simp
  have "canonical (rev ?ds)"
    using digits_lt10 hd dg by (auto simp: canonical_def last_rev)
  then have d: "digits (val (rev ?ds)) = rev ?ds" by (rule digits_val)
  have "reverse_int (reverse_int n) = int (val (rev (digits (val (rev ?ds)))))"
    using assms by (simp add: reverse_int_val)
  then show ?thesis using d assms by (simp add: val_digits)
qed


text \<open>One step adds at most one digit.\<close>

lemma reverse_add_bounds:
  assumes "0 \<le> x" "x < 10 ^ d"
  shows "0 \<le> x + reverse_int x" "x + reverse_int x < 10 ^ Suc d"
proof -
  show "0 \<le> x + reverse_int x" using assms(1) reverse_int_nonneg[OF assms(1)] by simp
  let ?ds = "digits (nat x)"
  have "nat x < 10 ^ d" using assms nat_abs_less_pow[of x d] by simp
  then have len: "length ?ds \<le> d" by (rule digits_length_le)
  have "val (rev ?ds) < 10 ^ length (rev ?ds)" using digits_lt10 by (intro val_upper) simp
  also have "\<dots> \<le> 10 ^ d" using len by (simp add: power_increasing)
  finally have "int (val (rev ?ds)) < 10 ^ d" by (metis of_nat_less_iff of_nat_numeral of_nat_power)
  then have "reverse_int x < 10 ^ d" using assms(1) by (simp add: reverse_int_val)
  then have "x + reverse_int x < 10 ^ d + 10 ^ d" using assms(2) by linarith
  also have "(10::int) ^ d + 10 ^ d \<le> 10 ^ Suc d" by simp
  finally show "x + reverse_int x < 10 ^ Suc d" .
qed

section \<open>The chain generator\<close>

lemma chain_loop_Suc_cases:
  assumes "lychrel_chain_loop (Suc k) chain cur = Inr (c, f)"
  obtains (found) r where "reverse_num cur = Inr r" "is_palindrome_tree (cur + r) = Inr True"
      "c = chain @ [cur + r]" "f"
    | (continue) r where "reverse_num cur = Inr r" "is_palindrome_tree (cur + r) = Inr False"
      "lychrel_chain_loop k (chain @ [cur + r]) (cur + r) = Inr (c, f)"
proof -
  from assms obtain r where r: "reverse_num cur = Inr r"
    by (cases "reverse_num cur") auto
  from assms r obtain p where p: "is_palindrome_tree (cur + r) = Inr p"
    by (cases "is_palindrome_tree (cur + r)") (auto simp: Let_def)
  show ?thesis
  proof (cases p)
    case True
    with assms r p have "c = chain @ [cur + r]" "f" by (auto simp: Let_def)
    with r p True show ?thesis by (intro found) auto
  next
    case False
    with assms r p have "lychrel_chain_loop k (chain @ [cur + r]) (cur + r) = Inr (c, f)"
      by (simp add: Let_def)
    with r p False show ?thesis by (intro continue) auto
  qed
qed

lemma chain_loop_ext:
  "lychrel_chain_loop k chain cur = Inr (c, f) \<Longrightarrow>
   \<exists>ext. c = chain @ ext \<and> length ext \<le> k \<and> (\<not> f \<longrightarrow> length ext = k) \<and> (f \<longrightarrow> ext \<noteq> [])"
proof (induction k arbitrary: chain cur)
  case 0
  then show ?case by simp
next
  case (Suc k)
  from Suc.prems show ?case
  proof (cases rule: chain_loop_Suc_cases)
    case (found r)
    then show ?thesis by simp
  next
    case (continue r)
    from Suc.IH[OF continue(3)] obtain ext where
      "c = (chain @ [cur + r]) @ ext" "length ext \<le> k" "\<not> f \<longrightarrow> length ext = k" by blast
    then have "c = chain @ ((cur + r) # ext) \<and> length ((cur + r) # ext) \<le> Suc k \<and>
      (\<not> f \<longrightarrow> length ((cur + r) # ext) = Suc k) \<and> (f \<longrightarrow> (cur + r) # ext \<noteq> [])" by simp
    then show ?thesis by blast
  qed
qed

lemma chain_loop_found:
  "lychrel_chain_loop k chain cur = Inr (c, True) \<Longrightarrow> is_palindrome_tree (last c) = Inr True"
proof (induction k arbitrary: chain cur)
  case 0
  then show ?case by simp
next
  case (Suc k)
  from Suc.prems show ?case
  proof (cases rule: chain_loop_Suc_cases)
    case (found r)
    then show ?thesis by simp
  next
    case (continue r)
    from continue(3) show ?thesis by (rule Suc.IH)
  qed
qed

text \<open>Every value the loop appends, but the last one of a successful run, is no palindrome.\<close>

lemma chain_loop_not_pal:
  "lychrel_chain_loop k chain cur = Inr (c, f) \<Longrightarrow> length chain \<le> j \<Longrightarrow> j < length c \<Longrightarrow>
   (f \<longrightarrow> Suc j < length c) \<Longrightarrow> is_palindrome_tree (c ! j) = Inr False"
proof (induction k arbitrary: chain cur)
  case 0
  then show ?case by simp
next
  case (Suc k)
  from Suc.prems(1) show ?case
  proof (cases rule: chain_loop_Suc_cases)
    case (found r)
    with Suc.prems show ?thesis by simp
  next
    case (continue r)
    from chain_loop_ext[OF continue(3)] obtain ext where c: "c = (chain @ [cur + r]) @ ext"
      by blast
    show ?thesis
    proof (cases "j = length chain")
      case True
      then have "c ! j = cur + r" using c by (simp add: nth_append)
      with continue(2) show ?thesis by simp
    next
      case False
      with Suc.prems have "length (chain @ [cur + r]) \<le> j" by simp
      from Suc.IH[OF continue(3) this] Suc.prems show ?thesis by simp
    qed
  qed
qed

text \<open>Each value but the first is its predecessor plus the predecessor's reversal.\<close>

lemma chain_loop_step:
  "lychrel_chain_loop k chain cur = Inr (c, f) \<Longrightarrow> chain \<noteq> [] \<Longrightarrow> last chain = cur \<Longrightarrow>
   length chain \<le> Suc j \<Longrightarrow> Suc j < length c \<Longrightarrow>
   reverse_num (c ! j) = Inr (c ! Suc j - c ! j)"
proof (induction k arbitrary: chain cur)
  case 0
  then show ?case by simp
next
  case (Suc k)
  from Suc.prems(1) obtain r where r: "reverse_num cur = Inr r"
    and ext: "\<exists>ext. c = (chain @ [cur + r]) @ ext"
    and rest: "length (chain @ [cur + r]) \<le> Suc j \<Longrightarrow>
               reverse_num (c ! j) = Inr (c ! Suc j - c ! j)"
  proof (cases rule: chain_loop_Suc_cases)
    case (found r)
    then have "c = (chain @ [cur + r]) @ []" by simp
    then have "\<exists>ext. c = (chain @ [cur + r]) @ ext" by blast
    moreover have "reverse_num (c ! j) = Inr (c ! Suc j - c ! j)"
      if "length (chain @ [cur + r]) \<le> Suc j"
      using that found(3) Suc.prems(5) by simp
    ultimately show ?thesis using found(1) that by blast
  next
    case (continue r)
    from chain_loop_ext[OF continue(3)] have "\<exists>ext. c = (chain @ [cur + r]) @ ext" by blast
    moreover have "reverse_num (c ! j) = Inr (c ! Suc j - c ! j)"
      if "length (chain @ [cur + r]) \<le> Suc j"
      using Suc.IH[OF continue(3) _ _ that] Suc.prems(5) by simp
    ultimately show ?thesis using continue(1) that by blast
  qed
  from ext obtain ext where c: "c = (chain @ [cur + r]) @ ext" by blast
  show ?case
  proof (cases "Suc j = length chain")
    case True
    have j: "j = length chain - 1" using True by simp
    have "chain ! j = cur" using Suc.prems(2,3) unfolding j by (simp add: last_conv_nth)
    then have "c ! j = cur" using c True by (simp add: nth_append)
    moreover have "c ! Suc j = cur + r" using c True by (simp add: nth_append)
    ultimately show ?thesis using r by simp
  next
    case False
    then have "length (chain @ [cur + r]) \<le> Suc j" using Suc.prems(4) by simp
    then show ?thesis by (rule rest)
  qed
qed

text \<open>
  The loop returns when the digits of its start value and the number of its steps
  together stay within the limit of the conversions.
\<close>

lemma chain_loop_total:
  "0 \<le> cur \<Longrightarrow> cur < 10 ^ d \<Longrightarrow> d + k \<le> int_max_str_digits \<Longrightarrow>
   \<exists>c f. lychrel_chain_loop k chain cur = Inr (c, f)"
proof (induction k arbitrary: chain cur d)
  case 0
  have "lychrel_chain_loop 0 chain cur = Inr (chain, False)" by simp
  then show ?case by blast
next
  case (Suc k)
  let ?nx = "cur + reverse_int cur"
  have "(10::int) ^ d \<le> 10 ^ int_max_str_digits"
    using Suc.prems(3) by (intro power_increasing) auto
  with Suc.prems(2) have small: "cur < 10 ^ int_max_str_digits" by (rule less_le_trans)
  have r: "reverse_num cur = Inr (reverse_int cur)"
    using Suc.prems(1) small by (rule reverse_num_int)
  have nn: "0 \<le> ?nx" and up: "?nx < 10 ^ Suc d"
    using reverse_add_bounds[OF Suc.prems(1,2)] by auto
  have "(10::int) ^ Suc d \<le> 10 ^ int_max_str_digits"
    using Suc.prems(3) by (intro power_increasing) auto
  with up have nsmall: "?nx < 10 ^ int_max_str_digits" by (rule less_le_trans)
  have p: "is_palindrome_tree ?nx = Inr (is_palindrome_graph ?nx)"
    using nn nsmall by (rule is_palindrome_agree)
  have "Suc d + k \<le> int_max_str_digits" using Suc.prems(3) by simp
  from Suc.IH[OF nn up this] obtain c f where
    run: "lychrel_chain_loop k (chain @ [?nx]) ?nx = Inr (c, f)" by blast
  show ?case
  proof (cases "is_palindrome_graph ?nx")
    case True
    then have "lychrel_chain_loop (Suc k) chain cur = Inr (chain @ [?nx], True)"
      using r p by (simp add: Let_def)
    then show ?thesis by blast
  next
    case False
    then have "lychrel_chain_loop (Suc k) chain cur = Inr (c, f)"
      using r p run by (simp add: Let_def)
    then show ?thesis by blast
  qed
qed

lemma chain_loop_nonneg:
  "lychrel_chain_loop k chain cur = Inr (c, f) \<Longrightarrow> 0 \<le> cur \<Longrightarrow> \<forall>x \<in> set chain. 0 \<le> x \<Longrightarrow>
   \<forall>x \<in> set c. 0 \<le> x"
proof (induction k arbitrary: chain cur)
  case 0
  then show ?case by simp
next
  case (Suc k)
  from Suc.prems(1) show ?case
  proof (cases rule: chain_loop_Suc_cases)
    case (found r)
    have "r = reverse_int cur" using found(1) by (rule reverse_num_Inr(3))
    then have "0 \<le> cur + r" using Suc.prems(2) reverse_int_nonneg[of cur] by simp
    with found(3) Suc.prems(3) show ?thesis by simp
  next
    case (continue r)
    have "r = reverse_int cur" using continue(1) by (rule reverse_num_Inr(3))
    then have nn: "0 \<le> cur + r" using Suc.prems(2) reverse_int_nonneg[of cur] by simp
    from Suc.IH[OF continue(3) nn] Suc.prems(3) nn show ?thesis by simp
  qed
qed

lemma chain_shape:
  assumes "lychrel_chain n b = Inr (c, f)"
  shows "c \<noteq> []" "c ! 0 = n" "length c \<le> nat b + 1"
        "\<not> f \<Longrightarrow> length c = nat b + 1" "f \<Longrightarrow> 2 \<le> length c"
proof -
  from assms have run: "lychrel_chain_loop (nat b) [n] n = Inr (c, f)"
    by (simp add: lychrel_chain_def)
  from chain_loop_ext[OF run] obtain ext where
    e: "c = [n] @ ext" "length ext \<le> nat b" "\<not> f \<longrightarrow> length ext = nat b" "f \<longrightarrow> ext \<noteq> []"
    by blast
  show "c \<noteq> []" "c ! 0 = n" "length c \<le> nat b + 1" using e by auto
  show "\<not> f \<Longrightarrow> length c = nat b + 1" using e by auto
  show "f \<Longrightarrow> 2 \<le> length c" using e by (cases ext) auto
qed

lemma chain_last_pal:
  "lychrel_chain n b = Inr (c, True) \<Longrightarrow> is_palindrome_tree (last c) = Inr True"
  unfolding lychrel_chain_def by (rule chain_loop_found)

lemma chain_not_pal:
  "lychrel_chain n b = Inr (c, f) \<Longrightarrow> 1 \<le> j \<Longrightarrow> j < length c \<Longrightarrow>
   (f \<longrightarrow> Suc j < length c) \<Longrightarrow> is_palindrome_tree (c ! j) = Inr False"
  unfolding lychrel_chain_def by (rule chain_loop_not_pal[where chain = "[n]"]) auto

lemma chain_step:
  "lychrel_chain n b = Inr (c, f) \<Longrightarrow> Suc j < length c \<Longrightarrow>
   reverse_num (c ! j) = Inr (c ! Suc j - c ! j)"
  unfolding lychrel_chain_def by (rule chain_loop_step[where chain = "[n]"]) auto

lemma chain_total:
  "0 \<le> n \<Longrightarrow> n < 10 ^ d \<Longrightarrow> d + nat b \<le> int_max_str_digits \<Longrightarrow>
   \<exists>c f. lychrel_chain n b = Inr (c, f)"
  unfolding lychrel_chain_def by (rule chain_loop_total)



lemma chain_too_big:
  "10 ^ int_max_str_digits \<le> n \<Longrightarrow> 1 \<le> b \<Longrightarrow> lychrel_chain n b = Inl ValueError"
proof -
  assume n: "10 ^ int_max_str_digits \<le> n" and b: "1 \<le> b"
  then obtain k where k: "nat b = Suc k" by (cases "nat b") auto
  have "10 ^ int_max_str_digits \<le> \<bar>n\<bar>" using n by simp
  from reverse_num_big[OF this] show ?thesis by (simp add: lychrel_chain_def k)
qed

lemma chain_nonneg:
  "lychrel_chain n b = Inr (c, f) \<Longrightarrow> 0 \<le> n \<Longrightarrow> \<forall>x \<in> set c. 0 \<le> x"
  unfolding lychrel_chain_def by (rule chain_loop_nonneg[where chain = "[n]"]) auto

text \<open>
  When the loop returns, the series counter returns the index of the last value of the
  chain.
\<close>

lemma iterations_loop_chain:
  "lychrel_chain_loop k chain cur = Inr (c, f) \<Longrightarrow> 0 \<le> cur \<Longrightarrow>
   palindrome_iterations_loop [int (length chain)..int (length chain) + int k - 1] cur
     (int (length chain) + int k - 1) = int (length c) - 1"
proof (induction k arbitrary: chain cur)
  case 0
  then show ?case by simp
next
  case (Suc k)
  let ?i = "int (length chain)"
  let ?nx = "cur + reverse_int cur"
  have nn: "0 \<le> ?nx" using Suc.prems reverse_int_nonneg[of cur] by simp
  have up: "[?i..?i + int (Suc k) - 1] = ?i # [?i + 1..?i + int (Suc k) - 1]"
    by (subst upto_rec1) auto
  from Suc.prems(1) show ?case
  proof (cases rule: chain_loop_Suc_cases)
    case (found r)
    have r: "r = reverse_int cur" using found(1) by (rule reverse_num_Inr(3))
    have "is_palindrome_graph ?nx" using is_palindrome_tree_Inr(2)[OF found(2)] nn r by simp
    then show ?thesis using found(3) r up by (simp add: Let_def)
  next
    case (continue r)
    have r: "r = reverse_int cur" using continue(1) by (rule reverse_num_Inr(3))
    have np: "\<not> is_palindrome_graph ?nx"
      using is_palindrome_tree_Inr(2)[OF continue(2)] nn r by simp
    from Suc.IH[OF continue(3)] nn r have
      "palindrome_iterations_loop [?i + 1..?i + 1 + int k - 1] ?nx (?i + 1 + int k - 1)
         = int (length c) - 1" by (simp add: add.commute add.left_commute)
    moreover have "?i + 1 + int k - 1 = ?i + int (Suc k) - 1" by simp
    ultimately show ?thesis using np up by (simp add: Let_def)
  qed
qed

lemma iterations_chain:
  assumes "lychrel_chain n b = Inr (c, f)" "0 \<le> n" "0 \<le> b"
  shows "palindrome_iterations n b = int (length c) - 1"
proof -
  from assms have run: "lychrel_chain_loop (nat b) [n] n = Inr (c, f)"
    by (simp add: lychrel_chain_def)
  from iterations_loop_chain[OF run assms(2)] assms(3) show ?thesis
    by (simp add: palindrome_iterations_def)
qed

text \<open>
  The series counter by itself: it returns the first step at which the value is a
  palindrome, when there is one within the bound, and the bound otherwise.
\<close>

lemma funpow_Suc_shift: "(f ^^ Suc j) (f x) = (f ^^ Suc (Suc j)) x"
  by (simp add: funpow_swap1)

lemma iterations_loop_least:
  "palindrome_iterations_loop [i..i + int n - 1] cur m =
     (if \<exists>j<n. is_palindrome_graph ((reverse_add ^^ Suc j) cur)
      then i + int (LEAST j. is_palindrome_graph ((reverse_add ^^ Suc j) cur))
      else m)"
proof (induction n arbitrary: i cur)
  case 0
  show ?case by simp
next
  case (Suc n)
  let ?P = "\<lambda>j. is_palindrome_graph ((reverse_add ^^ Suc j) cur)"
  let ?nx = "reverse_add cur"
  have up: "[i..i + int (Suc n) - 1] = i # [i + 1..i + 1 + int n - 1]"
    by (subst upto_rec1) (auto simp: add.commute add.left_commute)
  have shift: "is_palindrome_graph ((reverse_add ^^ Suc j) ?nx) = ?P (Suc j)" for j
    by (simp only: funpow_Suc_shift)
  show ?case
  proof (cases "?P 0")
    case True
    then have "(LEAST j. ?P j) = 0" by (intro Least_eq_0)
    moreover have "\<exists>j<Suc n. ?P j" using True by blast
    moreover have "is_palindrome_graph (cur + reverse_int cur)"
      using True by (simp add: reverse_add_def)
    ultimately show ?thesis by (simp only: up palindrome_iterations_loop.simps Let_def) simp
  next
    case False
    then have np: "\<not> is_palindrome_graph (cur + reverse_int cur)"
      by (simp add: reverse_add_def)
    have step: "palindrome_iterations_loop [i..i + int (Suc n) - 1] cur m =
                palindrome_iterations_loop [i + 1..i + 1 + int n - 1] ?nx m"
      using np by (simp only: up palindrome_iterations_loop.simps Let_def reverse_add_def) simp
    have ex: "(\<exists>j<Suc n. ?P j) = (\<exists>j<n. ?P (Suc j))"
    proof
      assume "\<exists>j<Suc n. ?P j"
      then obtain j where j: "j < Suc n" "?P j" by blast
      with False obtain j' where "j = Suc j'" by (cases j) auto
      with j show "\<exists>j<n. ?P (Suc j)" by auto
    next
      assume "\<exists>j<n. ?P (Suc j)"
      then obtain j where "j < n" "?P (Suc j)" by blast
      then have "Suc j < Suc n \<and> ?P (Suc j)" by simp
      then show "\<exists>j<Suc n. ?P j" by blast
    qed
    show ?thesis
    proof (cases "\<exists>j<n. ?P (Suc j)")
      case e: True
      then obtain j where "?P (Suc j)" by blast
      from Least_Suc[of ?P, OF this False] have
        l: "(LEAST j. ?P j) = Suc (LEAST j. ?P (Suc j))" .
      have "palindrome_iterations_loop [i + 1..i + 1 + int n - 1] ?nx m =
            i + 1 + int (LEAST j. ?P (Suc j))"
        using e by (simp only: Suc.IH shift if_True)
      then show ?thesis using e ex l by (simp only: step) simp
    next
      case e: False
      have "palindrome_iterations_loop [i + 1..i + 1 + int n - 1] ?nx m = m"
        using e by (simp only: Suc.IH shift if_False)
      then show ?thesis using e ex by (simp only: step) simp
    qed
  qed
qed

lemma iterations_props:
  assumes "1 \<le> b"
  shows "1 \<le> palindrome_iterations n b" "palindrome_iterations n b \<le> b"
    "1 \<le> j \<Longrightarrow> j < nat (palindrome_iterations n b) \<Longrightarrow>
       \<not> is_palindrome_graph ((reverse_add ^^ j) n)"
    "palindrome_iterations n b < b \<Longrightarrow>
       is_palindrome_graph ((reverse_add ^^ nat (palindrome_iterations n b)) n)"
proof -
  let ?P = "\<lambda>j. is_palindrome_graph ((reverse_add ^^ Suc j) n)"
  let ?L = "LEAST j. ?P j"
  let ?k = "palindrome_iterations n b"
  have b: "b = 1 + int (nat b) - 1" using assms by simp
  have "?k = palindrome_iterations_loop [1..1 + int (nat b) - 1] n b"
    using b by (simp add: palindrome_iterations_def)
  then have k: "?k = (if \<exists>j<nat b. ?P j then 1 + int ?L else b)"
    by (simp only: iterations_loop_least)
  have facts: "1 \<le> ?k \<and> ?k \<le> b \<and> (\<forall>j. 1 \<le> j \<and> j < nat ?k \<longrightarrow> \<not> ?P (j - 1)) \<and>
               (?k < b \<longrightarrow> ?P (nat ?k - 1))"
  proof (cases "\<exists>j<nat b. ?P j")
    case True
    then obtain j where j: "j < nat b" "?P j" by blast
    have kl: "?k = 1 + int ?L" unfolding k using True by (rule if_P)
    have "?L \<le> j" using j(2) by (rule Least_le)
    then have lb: "?L < nat b" using j(1) by simp
    have pl: "?P ?L" using j(2) by (rule LeastI)
    have "\<not> ?P (i - 1)" if "1 \<le> i" "i < nat ?k" for i
    proof -
      have "i - 1 < ?L" using that kl by simp
      then show ?thesis by (rule not_less_Least)
    qed
    moreover have "nat ?k - 1 = ?L" using kl by simp
    ultimately show ?thesis using kl lb pl assms by auto
  next
    case False
    have kb: "?k = b" unfolding k using False by (rule if_not_P)
    have "\<not> ?P (i - 1)" if "1 \<le> i" "i < nat ?k" for i
    proof -
      have "i - 1 < nat b" using that kb by simp
      with False show ?thesis by blast
    qed
    then show ?thesis using kb assms by auto
  qed
  show "1 \<le> ?k" "?k \<le> b" using facts by auto
  show "\<not> is_palindrome_graph ((reverse_add ^^ j) n)" if "1 \<le> j" "j < nat ?k"
  proof -
    have np: "\<not> ?P (j - 1)" using facts that by blast
    have e: "Suc (j - 1) = j" using that by simp
    from np show ?thesis unfolding e .
  qed
  show "is_palindrome_graph ((reverse_add ^^ nat ?k) n)" if "?k < b"
  proof -
    have p: "?P (nat ?k - 1)" using facts that by blast
    have e: "Suc (nat ?k - 1) = nat ?k" using facts by simp
    from p show ?thesis unfolding e .
  qed
qed

text \<open>
  The chain generator returns exactly when the value at which the iteration stops is
  within the limit of the conversions: the values do not decrease, and each of them goes
  through \<open>str\<close>.
\<close>

lemma reverse_add_ge: "0 \<le> x \<Longrightarrow> x \<le> reverse_add x"
  using reverse_int_nonneg[of x] by (simp add: reverse_add_def)

lemma last_value_ge: "0 \<le> cur \<Longrightarrow> cur \<le> last_value k cur"
proof (induction k arbitrary: cur)
  case 0
  show ?case by simp
next
  case (Suc k)
  have a: "cur \<le> reverse_add cur" using Suc.prems by (rule reverse_add_ge)
  then have "0 \<le> reverse_add cur" using Suc.prems by simp
  from Suc.IH[OF this] a show ?case by simp
qed

lemma chain_loop_returns_iff:
  "0 \<le> cur \<Longrightarrow>
   (\<exists>c f. lychrel_chain_loop k chain cur = Inr (c, f)) =
   (k = 0 \<or> last_value k cur < 10 ^ int_max_str_digits)"
proof (induction k arbitrary: chain cur)
  case 0
  have "lychrel_chain_loop 0 chain cur = Inr (chain, False)" by simp
  then show ?case by blast
next
  case (Suc k)
  let ?nx = "reverse_add cur"
  have ge: "cur \<le> ?nx" using Suc.prems by (rule reverse_add_ge)
  then have nn: "0 \<le> ?nx" using Suc.prems by simp
  have nx: "?nx = cur + reverse_int cur" by (simp add: reverse_add_def)
  show ?case
  proof
    assume "\<exists>c f. lychrel_chain_loop (Suc k) chain cur = Inr (c, f)"
    then obtain c f where run: "lychrel_chain_loop (Suc k) chain cur = Inr (c, f)" by blast
    from run have "last_value (Suc k) cur < 10 ^ int_max_str_digits"
    proof (cases rule: chain_loop_Suc_cases)
      case (found r)
      have r: "cur + r = ?nx" using reverse_num_Inr(3)[OF found(1)] nx by simp
      from is_palindrome_tree_Inr[OF found(2)[unfolded r] nn] show ?thesis by simp
    next
      case (continue r)
      have r: "cur + r = ?nx" using reverse_num_Inr(3)[OF continue(1)] nx by simp
      note p = is_palindrome_tree_Inr[OF continue(2)[unfolded r] nn]
      have "\<exists>c f. lychrel_chain_loop k (chain @ [?nx]) ?nx = Inr (c, f)"
        using continue(3)[unfolded r] by blast
      then have "k = 0 \<or> last_value k ?nx < 10 ^ int_max_str_digits"
        by (simp only: Suc.IH[OF nn])
      then have "last_value k ?nx < 10 ^ int_max_str_digits" using p(1) by (cases k) auto
      then show ?thesis using p(2) by simp
    qed
    then show "Suc k = 0 \<or> last_value (Suc k) cur < 10 ^ int_max_str_digits" by simp
  next
    assume "Suc k = 0 \<or> last_value (Suc k) cur < 10 ^ int_max_str_digits"
    then have lv: "last_value (Suc k) cur < 10 ^ int_max_str_digits" by simp
    have "?nx \<le> last_value (Suc k) cur" using last_value_ge[OF nn, of k] by simp
    from this lv have nsmall: "?nx < 10 ^ int_max_str_digits" by (rule le_less_trans)
    with ge have small: "cur < 10 ^ int_max_str_digits" by (rule le_less_trans)
    have r: "reverse_num cur = Inr (reverse_int cur)"
      using Suc.prems small by (rule reverse_num_int)
    have p: "is_palindrome_tree (cur + reverse_int cur) = Inr (is_palindrome_graph ?nx)"
      using is_palindrome_agree[OF nn nsmall] nx by simp
    show "\<exists>c f. lychrel_chain_loop (Suc k) chain cur = Inr (c, f)"
    proof (cases "is_palindrome_graph ?nx")
      case True
      then have "lychrel_chain_loop (Suc k) chain cur = Inr (chain @ [cur + reverse_int cur], True)"
        using r p by (simp add: Let_def)
      then show ?thesis by blast
    next
      case False
      then have "last_value k ?nx < 10 ^ int_max_str_digits" using lv by simp
      then have "\<exists>c f. lychrel_chain_loop k (chain @ [?nx]) ?nx = Inr (c, f)"
        by (simp only: Suc.IH[OF nn]) simp
      then obtain c f where "lychrel_chain_loop k (chain @ [?nx]) ?nx = Inr (c, f)" by blast
      then have "lychrel_chain_loop (Suc k) chain cur = Inr (c, f)"
        using r p False nx by (simp add: Let_def)
      then show ?thesis by blast
    qed
  qed
qed

lemma iterations_loop_Suc:
  "palindrome_iterations_loop [i..i + int (Suc k) - 1] cur (i + int (Suc k) - 1) =
     (if is_palindrome_graph (reverse_add cur) then i
      else palindrome_iterations_loop [i + 1..i + 1 + int k - 1] (reverse_add cur)
             (i + 1 + int k - 1))"
proof -
  have up: "[i..i + int (Suc k) - 1] = i # [i + 1..i + int (Suc k) - 1]"
    by (subst upto_rec1) auto
  have e: "i + 1 + int k - 1 = i + int (Suc k) - 1" by simp
  show ?thesis unfolding e by (subst up) (simp add: Let_def reverse_add_def)
qed

lemma iterations_loop_lower:
  "i - 1 \<le> palindrome_iterations_loop [i..i + int k - 1] cur (i + int k - 1)"
proof (induction k arbitrary: i cur)
  case 0
  show ?case by simp
next
  case (Suc k)
  have "i + 1 - 1 \<le> palindrome_iterations_loop [i + 1..i + 1 + int k - 1] (reverse_add cur)
          (i + 1 + int k - 1)" by (rule Suc.IH)
  then show ?case unfolding iterations_loop_Suc by auto
qed

lemma iterations_loop_last_value:
  "(reverse_add ^^ nat (palindrome_iterations_loop [i..i + int k - 1] cur (i + int k - 1) - i + 1))
     cur = last_value k cur"
proof (induction k arbitrary: i cur)
  case 0
  show ?case by simp
next
  case (Suc k)
  let ?nx = "reverse_add cur"
  let ?r = "palindrome_iterations_loop [i + 1..i + 1 + int k - 1] ?nx (i + 1 + int k - 1)"
  show ?case
  proof (cases "is_palindrome_graph ?nx")
    case True
    then show ?thesis unfolding iterations_loop_Suc by simp
  next
    case False
    have "i + 1 - 1 \<le> ?r" by (rule iterations_loop_lower)
    then have n: "nat (?r - i + 1) = Suc (nat (?r - (i + 1) + 1))" by simp
    have "(reverse_add ^^ nat (?r - i + 1)) cur = (reverse_add ^^ nat (?r - (i + 1) + 1)) ?nx"
      by (simp only: n funpow_Suc_right o_apply)
    also have "\<dots> = last_value k ?nx" by (rule Suc.IH)
    finally have "(reverse_add ^^ nat (?r - i + 1)) cur = last_value (Suc k) cur"
      using False by simp
    then show ?thesis unfolding iterations_loop_Suc using False by (simp only: if_False)
  qed
qed

lemma iterations_last_value:
  assumes "1 \<le> b"
  shows "(reverse_add ^^ nat (palindrome_iterations n b)) n = last_value (nat b) n"
proof -
  have b: "1 + int (nat b) - 1 = b" using assms by simp
  have "nat (palindrome_iterations n b - 1 + 1) = nat (palindrome_iterations n b)" by simp
  then show ?thesis
    using iterations_loop_last_value[of 1 "nat b" n]
    by (simp only: b palindrome_iterations_def)
qed

lemma chain_returns_iff:
  assumes "0 \<le> n" "1 \<le> b"
  shows "(\<exists>c f. lychrel_chain n b = Inr (c, f)) =
         ((reverse_add ^^ nat (palindrome_iterations n b)) n < 10 ^ int_max_str_digits)"
proof -
  have "nat b \<noteq> 0" using assms(2) by simp
  then show ?thesis
    using chain_loop_returns_iff[OF assms(1), of "nat b" "[n]"]
    by (simp only: lychrel_chain_def iterations_last_value[OF assms(2)]) simp
qed

text \<open>
  C1, as stated, fails for \<open>lychrel_chain\<close>: for the seed \<open>10 ^ 4300\<close>, which has 4301
  digits, and bound 1 it returns no chain. The first call of \<open>reverse_num\<close> raises
  \<open>ValueError\<close>, because \<open>str\<close> refuses a number of more than 4300 digits.
\<close>

theorem chain_generator_counterexample:
  "(0::int) \<le> 10 ^ 4300 \<and> (1::int) \<le> 1 \<and> lychrel_chain (10 ^ 4300) 1 = Inl ValueError"
proof (intro conjI)
  show "(0::int) \<le> 10 ^ 4300" by (rule zero_le_power) simp
  show "(1::int) \<le> 1" by simp
  have "(10::int) ^ int_max_str_digits \<le> 10 ^ 4300"
    unfolding int_max_str_digits_def by (rule order_refl)
  then show "lychrel_chain (10 ^ 4300) 1 = Inl ValueError" by (rule chain_too_big) simp
qed

text \<open>
  C1, amended. For every seed \<open>\<ge> 0\<close> and bound \<open>\<ge> 1\<close>:

  \<^item> \<open>lychrel_chain\<close> either raises \<open>ValueError\<close> or returns a chain. Whenever it returns,
    the chain has between 2 and bound + 1 values, starts with the seed, and every value
    is its predecessor plus the predecessor's reversal. The success index is
    \<open>k = length chain - 1\<close>, so it is at least 1: on success the value at \<open>k\<close> is a
    palindrome and no value at an index from 1 to \<open>k - 1\<close> is one, whether the seed is a
    palindrome or not. Without success the chain has bound + 1 values and its last one is
    no palindrome either. \<open>palindrome_iterations\<close> returns that same index \<open>k\<close>.
  \<^item> \<open>lychrel_chain\<close> returns exactly when the value of the reverse-and-add sequence at
    step \<open>k = palindrome_iterations seed bound\<close> is below \<open>10 ^ 4300\<close>, that is within
    the 4300 digits that \<open>str\<close> and \<open>int\<close> accept; otherwise it raises \<open>ValueError\<close>.
    In particular it returns when the seed has at most \<open>d\<close> digits and \<open>d\<close> plus the
    bound is at most 4300.
  \<^item> \<open>palindrome_iterations\<close> always returns a \<open>k\<close> with \<open>1 \<le> k \<le> bound\<close>; no value of
    the reverse-and-add sequence at a step from 1 to \<open>k - 1\<close> is a palindrome, and the
    value at step \<open>k\<close> is one when \<open>k\<close> is below the bound.
\<close>

theorem chain_generator:
  assumes "0 \<le> seed" "1 \<le> bound"
  shows "(\<forall>chain found. lychrel_chain seed bound = Inr (chain, found) \<longrightarrow>
           2 \<le> length chain \<and> length chain \<le> nat bound + 1 \<and>
           chain ! 0 = seed \<and>
           (\<forall>j. Suc j < length chain \<longrightarrow> chain ! Suc j = chain ! j + reverse_int (chain ! j)) \<and>
           (\<forall>j. 1 \<le> j \<and> Suc j < length chain \<longrightarrow> is_palindrome_tree (chain ! j) = Inr False) \<and>
           (found \<longrightarrow> is_palindrome_tree (chain ! (length chain - 1)) = Inr True) \<and>
           (\<not> found \<longrightarrow> length chain = nat bound + 1 \<and>
                        is_palindrome_tree (chain ! (length chain - 1)) = Inr False) \<and>
           palindrome_iterations seed bound = int (length chain) - 1 \<and>
           (palindrome_iterations seed bound < bound \<longrightarrow> found)) \<and>
         (\<exists>chain found. lychrel_chain seed bound = Inr (chain, found)) =
           ((reverse_add ^^ nat (palindrome_iterations seed bound)) seed
              < 10 ^ int_max_str_digits) \<and>
         (lychrel_chain seed bound = Inl ValueError) =
           (10 ^ int_max_str_digits
              \<le> (reverse_add ^^ nat (palindrome_iterations seed bound)) seed) \<and>
         (\<forall>d. seed < 10 ^ d \<and> d + nat bound \<le> int_max_str_digits \<longrightarrow>
              (\<exists>chain found. lychrel_chain seed bound = Inr (chain, found))) \<and>
         1 \<le> palindrome_iterations seed bound \<and>
         palindrome_iterations seed bound \<le> bound \<and>
         (\<forall>j. 1 \<le> j \<and> j < nat (palindrome_iterations seed bound) \<longrightarrow>
              \<not> is_palindrome_graph ((reverse_add ^^ j) seed)) \<and>
         (palindrome_iterations seed bound < bound \<longrightarrow>
            is_palindrome_graph ((reverse_add ^^ nat (palindrome_iterations seed bound)) seed))"
proof (intro conjI allI impI)
  fix c f
  assume run: "lychrel_chain seed bound = Inr (c, f)"
  note sh = chain_shape[OF run]
  show len2: "2 \<le> length c"
  proof (cases f)
    case True
    then show ?thesis by (rule sh(5))
  next
    case False
    then show ?thesis using sh(4) assms(2) by simp
  qed
  show "length c \<le> nat bound + 1" by (rule sh(3))
  show "c ! 0 = seed" by (rule sh(2))
  show "c ! Suc j = c ! j + reverse_int (c ! j)" if "Suc j < length c" for j
  proof -
    have "reverse_num (c ! j) = Inr (c ! Suc j - c ! j)" using run that by (rule chain_step)
    then have "c ! Suc j - c ! j = reverse_int (c ! j)" by (rule reverse_num_Inr(3))
    then show ?thesis by simp
  qed
  show "is_palindrome_tree (c ! j) = Inr False" if "1 \<le> j \<and> Suc j < length c" for j
    using chain_not_pal[OF run, of j] that by simp
  have last: "c ! (length c - 1) = last c" using sh(1) by (simp add: last_conv_nth)
  show "is_palindrome_tree (c ! (length c - 1)) = Inr True" if f
    using chain_last_pal run last that by simp
  show "length c = nat bound + 1" if "\<not> f" using that by (rule sh(4))
  show "is_palindrome_tree (c ! (length c - 1)) = Inr False" if "\<not> f"
    using chain_not_pal[OF run, of "length c - 1"] that len2 by simp
  show it: "palindrome_iterations seed bound = int (length c) - 1"
    using iterations_chain[OF run assms(1)] assms(2) by simp
  show f if "palindrome_iterations seed bound < bound"
  proof (rule ccontr)
    assume "\<not> f"
    then have "length c = nat bound + 1" by (rule sh(4))
    then have "int (length c) - 1 = bound" using assms(2) by simp
    then show False using it that by simp
  qed
next
  show iff: "(\<exists>chain found. lychrel_chain seed bound = Inr (chain, found)) =
        ((reverse_add ^^ nat (palindrome_iterations seed bound)) seed < 10 ^ int_max_str_digits)"
    using assms by (rule chain_returns_iff)
  have "(lychrel_chain seed bound = Inl ValueError) =
        (\<not> (\<exists>chain found. lychrel_chain seed bound = Inr (chain, found)))"
    using error_is_ValueError by (cases "lychrel_chain seed bound") auto
  then show "(lychrel_chain seed bound = Inl ValueError) =
        (10 ^ int_max_str_digits \<le> (reverse_add ^^ nat (palindrome_iterations seed bound)) seed)"
    unfolding iff by (simp only: not_less)
next
  fix d
  assume "seed < 10 ^ d \<and> d + nat bound \<le> int_max_str_digits"
  then show "\<exists>chain found. lychrel_chain seed bound = Inr (chain, found)"
    using chain_total[OF assms(1), of d bound] by blast
next
  show "1 \<le> palindrome_iterations seed bound" using assms(2) by (rule iterations_props(1))
  show "palindrome_iterations seed bound \<le> bound" using assms(2) by (rule iterations_props(2))
next
  fix j
  assume "1 \<le> j \<and> j < nat (palindrome_iterations seed bound)"
  then show "\<not> is_palindrome_graph ((reverse_add ^^ j) seed)"
    using iterations_props(3)[OF assms(2), of j seed] by blast
next
  assume "palindrome_iterations seed bound < bound"
  then show "is_palindrome_graph ((reverse_add ^^ nat (palindrome_iterations seed bound)) seed)"
    using assms(2) by (intro iterations_props(4))
qed

theorem chain_generator_witness:
  "(0::int) \<le> 5 \<and> (1::int) \<le> 3 \<and> (5::int) < 10 ^ 1 \<and> 1 + nat 3 \<le> int_max_str_digits \<and>
   lychrel_chain 5 3 = Inr ([5, 10, 11], True) \<and> palindrome_iterations 5 3 = 2 \<and>
   is_palindrome_graph ((reverse_add ^^ 2) 5)"
proof -
  have e: "lychrel_chain 5 3 = Inr ([5, 10, 11], True)" by code_simp
  have c: "1 + nat 3 \<le> int_max_str_digits" by (simp add: int_max_str_digits_def)
  have h: "(0::int) \<le> 5" "(1::int) \<le> 3" by simp_all
  note t = chain_generator [OF h]
  from t e have k: "palindrome_iterations 5 3 = int (length [5, 10, 11::int]) - 1" by blast
  then have k2: "palindrome_iterations 5 3 = 2" by simp
  from t have "palindrome_iterations 5 3 < 3 \<longrightarrow>
      is_palindrome_graph ((reverse_add ^^ nat (palindrome_iterations 5 3)) 5)" by blast
  with k2 have "is_palindrome_graph ((reverse_add ^^ 2) 5)" by simp
  with e c k2 show ?thesis by simp
qed

section \<open>The graph builder in terms of edge and occurrence sets\<close>

lemma adj_of_Some: "adj_of E u = Some vs \<longleftrightarrow> vs = E `` {u} \<and> vs \<noteq> {}"
  by (auto simp: adj_of_def)

lemma adj_of_None: "adj_of E u = None \<longleftrightarrow> (\<forall>v. (u, v) \<notin> E)"
  by (auto simp: adj_of_def)

lemma lvl_of_None: "lvl_of P x = None \<longleftrightarrow> (\<forall>i. (x, i) \<notin> P)"
  by (auto simp: lvl_of_def)

lemma lvl_of_Some: "lvl_of P x = Some l \<longleftrightarrow> (x, l) \<in> P \<and> (\<forall>i. (x, i) \<in> P \<longrightarrow> l \<le> i)"
proof
  assume a: "lvl_of P x = Some l"
  then obtain i where i: "(x, i) \<in> P" by (auto simp: lvl_of_def split: if_splits)
  from a have l: "l = (LEAST i. (x, i) \<in> P)" by (auto simp: lvl_of_def split: if_splits)
  have "(x, l) \<in> P" unfolding l using i by (rule LeastI)
  moreover have "\<forall>i. (x, i) \<in> P \<longrightarrow> l \<le> i" unfolding l by (simp add: Least_le)
  ultimately show "(x, l) \<in> P \<and> (\<forall>i. (x, i) \<in> P \<longrightarrow> l \<le> i)" by simp
next
  assume a: "(x, l) \<in> P \<and> (\<forall>i. (x, i) \<in> P \<longrightarrow> l \<le> i)"
  then have "(LEAST i. (x, i) \<in> P) = l" by (intro Least_equality) auto
  with a show "lvl_of P x = Some l" by (auto simp: lvl_of_def)
qed

lemma lvl_of_eqI:
  assumes "\<And>x. (\<forall>i. (x, i) \<notin> P) \<Longrightarrow> m x = None"
    and "\<And>x l. (x, l) \<in> P \<Longrightarrow> (\<forall>i. (x, i) \<in> P \<longrightarrow> l \<le> i) \<Longrightarrow> m x = Some l"
  shows "m = lvl_of P"
proof
  fix x
  show "m x = lvl_of P x"
  proof (cases "lvl_of P x")
    case None
    then have "\<forall>i. (x, i) \<notin> P" by (simp add: lvl_of_None)
    from assms(1)[OF this] None show ?thesis by simp
  next
    case (Some l)
    then have "(x, l) \<in> P" "\<forall>i. (x, i) \<in> P \<longrightarrow> l \<le> i" by (simp_all add: lvl_of_Some)
    from assms(2)[OF this] Some show ?thesis by simp
  qed
qed

lemma add_edge_adj_of: "add_edge (adj_of E) u v = adj_of (insert (u, v) E)"
  by (rule ext) (auto simp: add_edge_def adj_of_def split: option.splits)

lemma set_level_lvl_of: "set_level (lvl_of P) x i = lvl_of (insert (x, i) P)"
proof (rule lvl_of_eqI)
  fix y assume "\<forall>j. (y, j) \<notin> insert (x, i) P"
  then have "y \<noteq> x" "lvl_of P y = None" by (auto simp: lvl_of_None)
  then show "set_level (lvl_of P) x i y = None"
    by (simp add: set_level_def split: option.splits)
next
  fix y l
  assume in1: "(y, l) \<in> insert (x, i) P" and le: "\<forall>j. (y, j) \<in> insert (x, i) P \<longrightarrow> l \<le> j"
  show "set_level (lvl_of P) x i y = Some l"
  proof (cases "y = x")
    case False
    with in1 le have "lvl_of P y = Some l" by (simp add: lvl_of_Some)
    with False show ?thesis by (simp add: set_level_def split: option.splits)
  next
    case True
    show ?thesis
    proof (cases "lvl_of P x")
      case None
      then have "l = i" using in1 True by (auto simp: lvl_of_None)
      with None True show ?thesis by (simp add: set_level_def)
    next
      case (Some a)
      then have a: "(x, a) \<in> P" "\<forall>j. (x, j) \<in> P \<longrightarrow> a \<le> j" by (simp_all add: lvl_of_Some)
      have "l \<le> a" "l \<le> i" using le a(1) True by auto
      moreover have "l = i \<or> a \<le> l" using in1 a(2) True by auto
      ultimately have "min a i = l" by auto
      with Some True show ?thesis by (simp add: set_level_def)
    qed
  qed
qed

lemma visit_abs:
  "visit c (adj_of E, lvl_of P) i =
     (adj_of (E \<union> (if Suc i < length c then {(c ! i, c ! Suc i)} else {})),
      lvl_of (P \<union> {(c ! i, i)} \<union> (if Suc i < length c then {(c ! Suc i, Suc i)} else {})))"
proof (cases "Suc i < length c")
  case True
  then have "i < length c - 1" by simp
  then show ?thesis using True
    by (simp add: visit_def Let_def add_edge_adj_of set_level_lvl_of insert_commute)
next
  case False
  then have "\<not> i < length c - 1" by simp
  then show ?thesis using False by (simp add: visit_def Let_def set_level_lvl_of)
qed

lemma fold_visit_abs:
  "foldl (visit c) (adj_of E, lvl_of P) [0..<k] =
     (adj_of (E \<union> {(c ! i, c ! Suc i) | i. i < k \<and> Suc i < length c}),
      lvl_of (P \<union> {(c ! i, i) | i. i < k} \<union> {(c ! Suc i, Suc i) | i. i < k \<and> Suc i < length c}))"
proof (induction k)
  case 0
  show ?case by simp
next
  case (Suc k)
  let ?E = "E \<union> {(c ! i, c ! Suc i) | i. i < k \<and> Suc i < length c}"
  let ?P = "P \<union> {(c ! i, i) | i. i < k} \<union> {(c ! Suc i, Suc i) | i. i < k \<and> Suc i < length c}"
  have e: "?E \<union> (if Suc k < length c then {(c ! k, c ! Suc k)} else {})
           = E \<union> {(c ! i, c ! Suc i) | i. i < Suc k \<and> Suc i < length c}"
    by (auto simp: less_Suc_eq)
  have p: "?P \<union> {(c ! k, k)} \<union> (if Suc k < length c then {(c ! Suc k, Suc k)} else {})
           = P \<union> {(c ! i, i) | i. i < Suc k}
               \<union> {(c ! Suc i, Suc i) | i. i < Suc k \<and> Suc i < length c}"
    by (auto simp: less_Suc_eq)
  have "foldl (visit c) (adj_of E, lvl_of P) [0..<Suc k]
        = visit c (foldl (visit c) (adj_of E, lvl_of P) [0..<k]) k" by simp
  also have "\<dots> = visit c (adj_of ?E, lvl_of ?P) k" by (simp only: Suc.IH)
  also have "\<dots> = (adj_of (?E \<union> (if Suc k < length c then {(c ! k, c ! Suc k)} else {})),
      lvl_of (?P \<union> {(c ! k, k)} \<union> (if Suc k < length c then {(c ! Suc k, Suc k)} else {})))"
    by (rule visit_abs)
  finally show ?case by (simp only: e p)
qed

lemma fold_visit_chain:
  "foldl (visit c) (adj_of E, lvl_of P) [0..<length c] = (adj_of (E \<union> cedges c), lvl_of (P \<union> coccs c))"
proof -
  have e: "{(c ! i, c ! Suc i) | i. i < length c \<and> Suc i < length c} = cedges c"
    by (auto simp: cedges_def)
  have p: "P \<union> {(c ! i, i) | i. i < length c}
             \<union> {(c ! Suc i, Suc i) | i. i < length c \<and> Suc i < length c} = P \<union> coccs c"
    by (auto simp: coccs_def)
  show ?thesis by (simp only: fold_visit_abs e p)
qed

lemma process_seed_abs:
  "process_seed b n (mk_graph E P S) =
     (case lychrel_chain n b of
        Inl e \<Rightarrow> Inl e
      | Inr (c, f) \<Rightarrow> Inr (mk_graph (E \<union> cedges c) (P \<union> coccs c) (if f then S else insert n S)))"
  by (simp add: process_seed_def mk_graph_def fold_visit_chain Let_def split: sum.splits prod.splits)

lemma chain_ok_cases:
  "chain_ok b n \<Longrightarrow> lychrel_chain n b = Inr (chain_of b n, found_of b n)"
  "\<not> chain_ok b n \<Longrightarrow> lychrel_chain n b = Inl ValueError"
proof -
  show "chain_ok b n \<Longrightarrow> lychrel_chain n b = Inr (chain_of b n, found_of b n)"
    by (auto simp: chain_ok_def chain_of_def found_of_def)
  assume "\<not> chain_ok b n"
  then obtain e where "lychrel_chain n b = Inl e"
    by (cases "lychrel_chain n b") (auto simp: chain_ok_def)
  then show "lychrel_chain n b = Inl ValueError" by (cases e) simp
qed

lemma seeds_loop_abs:
  "seeds_loop b ns (mk_graph E P S) =
     (if \<forall>n \<in> set ns. chain_ok b n
      then Inr (mk_graph (E \<union> all_edges b (set ns)) (P \<union> all_occs b (set ns))
                         (S \<union> flagged b (set ns)))
      else Inl ValueError)"
proof (induction ns arbitrary: E P S)
  case Nil
  show ?case by (simp add: all_edges_def all_occs_def flagged_def)
next
  case (Cons n ns)
  show ?case
  proof (cases "chain_ok b n")
    case False
    then show ?thesis by (simp add: process_seed_abs chain_ok_cases(2))
  next
    case True
    let ?c = "chain_of b n" and ?f = "found_of b n"
    have ps: "process_seed b n (mk_graph E P S) =
        Inr (mk_graph (E \<union> cedges ?c) (P \<union> coccs ?c) (if ?f then S else insert n S))"
      by (simp add: process_seed_abs chain_ok_cases(1)[OF True])
    have e: "E \<union> cedges ?c \<union> all_edges b (set ns) = E \<union> all_edges b (set (n # ns))"
      by (auto simp: all_edges_def)
    have p: "P \<union> coccs ?c \<union> all_occs b (set ns) = P \<union> all_occs b (set (n # ns))"
      by (auto simp: all_occs_def)
    have s: "(if ?f then S else insert n S) \<union> flagged b (set ns) = S \<union> flagged b (set (n # ns))"
      by (auto simp: flagged_def)
    show ?thesis using True by (simp only: seeds_loop.simps ps sum.case Cons.IH e p s) simp
  qed
qed

lemma empty_graph_mk: "empty_graph = mk_graph {} {} {}"
  by (simp add: empty_graph_def mk_graph_def adj_of_def lvl_of_def)

lemma seeds_loop_empty:
  "seeds_loop b ns empty_graph =
     (if \<forall>n \<in> set ns. chain_ok b n
      then Inr (mk_graph (all_edges b (set ns)) (all_occs b (set ns)) (flagged b (set ns)))
      else Inl ValueError)"
  using seeds_loop_abs[of b ns "{}" "{}" "{}"] by (simp add: empty_graph_mk)

lemma build_abs:
  "build_lychrel_graph s e b =
     (if \<forall>n \<in> {s..e}. chain_ok b n
      then Inr (mk_graph (all_edges b {s..e}) (all_occs b {s..e}) (flagged b {s..e}))
      else Inl ValueError)"
  by (simp add: build_lychrel_graph_def seeds_loop_empty)

lemma merge_mk:
  "merge_graph (mk_graph E1 P1 S1) (mk_graph E2 P2 S2) =
   mk_graph (E1 \<union> E2) (P1 \<union> P2) (S1 \<union> S2)"
proof -
  have a: "merge_adjacency (adj_of E1) (adj_of E2) = adj_of (E1 \<union> E2)"
    by (rule ext) (auto simp: merge_adjacency_def adj_of_def)
  have l: "merge_level (lvl_of P1) (lvl_of P2) = lvl_of (P1 \<union> P2)"
  proof (rule lvl_of_eqI)
    fix x assume "\<forall>i. (x, i) \<notin> P1 \<union> P2"
    then have "lvl_of P1 x = None" "lvl_of P2 x = None" by (auto simp: lvl_of_None)
    then show "merge_level (lvl_of P1) (lvl_of P2) x = None" by (simp add: merge_level_def)
  next
    fix x l
    assume in1: "(x, l) \<in> P1 \<union> P2" and le: "\<forall>i. (x, i) \<in> P1 \<union> P2 \<longrightarrow> l \<le> i"
    show "merge_level (lvl_of P1) (lvl_of P2) x = Some l"
    proof (cases "lvl_of P1 x")
      case n1: None
      then have "(x, l) \<in> P2" using in1 by (auto simp: lvl_of_None)
      then have "lvl_of P2 x = Some l" using le by (simp add: lvl_of_Some)
      with n1 show ?thesis by (simp add: merge_level_def)
    next
      case s1: (Some a)
      then have a: "(x, a) \<in> P1" "\<forall>j. (x, j) \<in> P1 \<longrightarrow> a \<le> j" by (simp_all add: lvl_of_Some)
      show ?thesis
      proof (cases "lvl_of P2 x")
        case n2: None
        then have "(x, l) \<in> P1" using in1 by (auto simp: lvl_of_None)
        then have "lvl_of P1 x = Some l" using le by (simp add: lvl_of_Some)
        with n2 show ?thesis by (simp add: merge_level_def)
      next
        case s2: (Some c)
        then have c: "(x, c) \<in> P2" "\<forall>j. (x, j) \<in> P2 \<longrightarrow> c \<le> j" by (simp_all add: lvl_of_Some)
        have "l \<le> a" "l \<le> c" using le a(1) c(1) by auto
        moreover have "a \<le> l \<or> c \<le> l" using in1 a(2) c(2) by auto
        ultimately have "min a c = l" by auto
        with s1 s2 show ?thesis by (simp add: merge_level_def)
      qed
    qed
  qed
  show ?thesis by (simp add: merge_graph_def mk_graph_def a l)
qed

lemma mk_graph_sel:
  "adjacency (mk_graph E P S) = adj_of E" "level_of (mk_graph E P S) = lvl_of P"
  "lychrel_seeds (mk_graph E P S) = S"
  by (simp_all add: mk_graph_def)

lemma build_Inr:
  assumes "build_lychrel_graph s e b = Inr g"
  shows "\<forall>n \<in> {s..e}. chain_ok b n"
    and "g = mk_graph (all_edges b {s..e}) (all_occs b {s..e}) (flagged b {s..e})"
  using assms by (auto simp: build_abs split: if_splits)

text \<open>
  The builder returns a graph when the seeds are not negative and the digits of the
  largest seed and the bound together stay within the limit of the conversions.
\<close>

lemma build_total:
  "0 \<le> s \<Longrightarrow> e < 10 ^ d \<Longrightarrow> d + nat b \<le> int_max_str_digits \<Longrightarrow>
   \<exists>g. build_lychrel_graph s e b = Inr g"
proof -
  assume s: "0 \<le> s" and e: "e < 10 ^ d" and d: "d + nat b \<le> int_max_str_digits"
  have "\<forall>n \<in> {s..e}. chain_ok b n"
  proof
    fix n assume "n \<in> {s..e}"
    then have "0 \<le> n" "n < 10 ^ d" using s e by auto
    then show "chain_ok b n" unfolding chain_ok_def using d by (rule chain_total)
  qed
  then show ?thesis by (simp add: build_abs)
qed

lemma all_edges_D:
  "(u, v) \<in> all_edges b N \<Longrightarrow>
   \<exists>n \<in> N. \<exists>i. Suc i < length (chain_of b n) \<and> chain_of b n ! i = u \<and> chain_of b n ! Suc i = v"
  by (auto simp: all_edges_def cedges_def)

lemma all_occs_D:
  "(x, i) \<in> all_occs b N \<Longrightarrow> \<exists>n \<in> N. i < length (chain_of b n) \<and> chain_of b n ! i = x"
  by (auto simp: all_occs_def coccs_def)

lemma all_occs_I:
  "n \<in> N \<Longrightarrow> i < length (chain_of b n) \<Longrightarrow> (chain_of b n ! i, i) \<in> all_occs b N"
  by (auto simp: all_occs_def coccs_def)

lemma all_edges_I:
  "n \<in> N \<Longrightarrow> Suc i < length (chain_of b n) \<Longrightarrow>
   (chain_of b n ! i, chain_of b n ! Suc i) \<in> all_edges b N"
  by (auto simp: all_edges_def cedges_def)

lemma lvl_of_defined: "(x, i) \<in> P \<Longrightarrow> \<exists>l. lvl_of P x = Some l \<and> l \<le> i"
proof -
  assume a: "(x, i) \<in> P"
  then have "lvl_of P x \<noteq> None" by (auto simp: lvl_of_None)
  then obtain l where l: "lvl_of P x = Some l" by auto
  then have "l \<le> i" using a by (simp add: lvl_of_Some)
  with l show ?thesis by simp
qed

text \<open>The successor of a value is the same in every chain.\<close>

lemma successor_unique:
  assumes "lychrel_chain n b = Inr (c, f)" "Suc i < length c"
    and "lychrel_chain n' b = Inr (c', f')" "Suc i' < length c'"
    and "c ! i = c' ! i'"
  shows "c ! Suc i = c' ! Suc i'"
proof -
  have "reverse_num (c ! i) = Inr (c ! Suc i - c ! i)" using assms(1,2) by (rule chain_step)
  moreover have "reverse_num (c' ! i') = Inr (c' ! Suc i' - c' ! i')"
    using assms(3,4) by (rule chain_step)
  ultimately show ?thesis using assms(5) by simp
qed

text \<open>
  A value with a successor in one chain has a successor at each of its occurrences at an
  index that is not greater.
\<close>

lemma earlier_has_successor:
  assumes c: "lychrel_chain n b = Inr (c, f)" and i: "Suc i < length c"
    and c': "lychrel_chain n' b = Inr (c', f')" and i': "i' < length c'"
    and eq: "c' ! i' = c ! i" and le: "i' \<le> i"
  shows "Suc i' < length c'"
proof (rule ccontr)
  assume "\<not> Suc i' < length c'"
  then have last: "length c' = Suc i'" using i' by simp
  have "i < nat b" using chain_shape(3)[OF c] i by simp
  then have "length c' \<noteq> nat b + 1" using last le by simp
  then have f': "f'" using chain_shape(4)[OF c'] by blast
  then have "is_palindrome_tree (last c') = Inr True" using chain_last_pal c' by simp
  then have pal: "is_palindrome_tree (c ! i) = Inr True"
    using last eq chain_shape(1)[OF c'] by (simp add: last_conv_nth)
  have "1 \<le> i'" using chain_shape(5)[OF c' f'] last by simp
  then have "1 \<le> i" using le by simp
  from chain_not_pal[OF c this] i pal show False by simp
qed

text \<open>
  C3. In a graph that \<open>build_lychrel_graph\<close> returns, every edge \<open>u \<rightarrow> v\<close> of the
  adjacency is realized by the chain of some seed of the range, which holds \<open>u\<close>
  immediately followed by \<open>v\<close>; and both ends have a level, with
  \<open>level v \<le> level u + 1\<close>.
\<close>

theorem edges_realized:
  assumes "build_lychrel_graph s e b = Inr g" "adjacency g u = Some vs" "v \<in> vs"
  shows "(\<exists>n chain found i. s \<le> n \<and> n \<le> e \<and> lychrel_chain n b = Inr (chain, found) \<and>
            Suc i < length chain \<and> chain ! i = u \<and> chain ! Suc i = v) \<and>
         (\<exists>lu lv. level_of g u = Some lu \<and> level_of g v = Some lv \<and> lv \<le> lu + 1)"
proof -
  let ?N = "{s..e}"
  note ok = build_Inr(1)[OF assms(1)]
  have g: "g = mk_graph (all_edges b ?N) (all_occs b ?N) (flagged b ?N)"
    using assms(1) by (rule build_Inr(2))
  have "(u, v) \<in> all_edges b ?N" using assms(2,3) by (auto simp: g mk_graph_sel adj_of_Some)
  from all_edges_D[OF this] obtain n i where
    n: "n \<in> ?N" and i: "Suc i < length (chain_of b n)"
    and u: "chain_of b n ! i = u" and v: "chain_of b n ! Suc i = v" by blast
  have run: "lychrel_chain n b = Inr (chain_of b n, found_of b n)"
    using ok n by (simp add: chain_ok_cases(1))
  have first: "\<exists>n chain found i. s \<le> n \<and> n \<le> e \<and> lychrel_chain n b = Inr (chain, found) \<and>
            Suc i < length chain \<and> chain ! i = u \<and> chain ! Suc i = v"
    using n i u v run by auto
  have "(u, i) \<in> all_occs b ?N" using all_occs_I[OF n, of i b] i u by simp
  from lvl_of_defined[OF this] obtain lu where
    lu: "lvl_of (all_occs b ?N) u = Some lu" "lu \<le> i" by blast
  then have "(u, lu) \<in> all_occs b ?N" by (simp add: lvl_of_Some)
  from all_occs_D[OF this] obtain n' where
    n': "n' \<in> ?N" and i': "lu < length (chain_of b n')" and u': "chain_of b n' ! lu = u" by blast
  have run': "lychrel_chain n' b = Inr (chain_of b n', found_of b n')"
    using ok n' by (simp add: chain_ok_cases(1))
  have suc: "Suc lu < length (chain_of b n')"
    using earlier_has_successor[OF run i run' i'] u u' lu(2) by simp
  have "chain_of b n ! Suc i = chain_of b n' ! Suc lu"
    using successor_unique[OF run i run' suc] u u' by simp
  then have "(v, Suc lu) \<in> all_occs b ?N" using all_occs_I[OF n' suc] v by simp
  from lvl_of_defined[OF this] obtain lv where
    "lvl_of (all_occs b ?N) v = Some lv" "lv \<le> Suc lu" by blast
  then have "\<exists>lu lv. level_of g u = Some lu \<and> level_of g v = Some lv \<and> lv \<le> lu + 1"
    using lu(1) by (simp add: g mk_graph_sel)
  with first show ?thesis by blast
qed

theorem edges_realized_witness:
  "\<exists>g. build_lychrel_graph 1 3 2 = Inr g \<and> adjacency g 1 = Some {2} \<and>
       level_of g 1 = Some 0 \<and> (\<exists>lv. level_of g 2 = Some lv \<and> lv \<le> 1) \<and>
       (\<exists>n chain found i. 1 \<le> n \<and> n \<le> 3 \<and> lychrel_chain n 2 = Inr (chain, found) \<and>
            Suc i < length chain \<and> chain ! i = 1 \<and> chain ! Suc i = 2)"
proof -
  obtain g where g: "build_lychrel_graph 1 3 2 = Inr g" using build_total[of 1 3 1 2] by (auto simp: int_max_str_digits_def)
  have "(case build_lychrel_graph 1 3 2 of Inr g \<Rightarrow> adjacency g 1 | Inl e \<Rightarrow> None) = Some {2}"
    by code_simp
  then have a: "adjacency g 1 = Some {2}" by (simp add: g)
  have "(case build_lychrel_graph 1 3 2 of Inr g \<Rightarrow> level_of g 1 | Inl e \<Rightarrow> None) = Some 0"
    by code_simp
  then have l: "level_of g 1 = Some 0" by (simp add: g)
  from edges_realized [OF g a, of 2] l have
    "(\<exists>n chain found i. 1 \<le> n \<and> n \<le> 3 \<and> lychrel_chain n 2 = Inr (chain, found) \<and>
            Suc i < length chain \<and> chain ! i = 1 \<and> chain ! Suc i = 2) \<and>
     (\<exists>lv. level_of g 2 = Some lv \<and> lv \<le> 1)" by simp
  with g a l show ?thesis by blast
qed

text \<open>
  C10. In a graph that \<open>build_lychrel_graph\<close> returns, every node the adjacency
  mentions has a level: every key, and every member of every set of successors.
\<close>

theorem adjacency_nodes_have_level:
  assumes "build_lychrel_graph s e b = Inr g" "adjacency g u = Some vs"
  shows "(\<exists>l. level_of g u = Some l) \<and> (\<forall>v. v \<in> vs \<longrightarrow> (\<exists>l. level_of g v = Some l))"
proof -
  let ?N = "{s..e}"
  have g: "g = mk_graph (all_edges b ?N) (all_occs b ?N) (flagged b ?N)"
    using assms(1) by (rule build_Inr(2))
  have "adj_of (all_edges b ?N) u = Some vs" using assms(2) by (simp add: g mk_graph_sel)
  then have "vs = all_edges b ?N `` {u} \<and> vs \<noteq> {}" by (rule iffD1[OF adj_of_Some])
  then have vs: "vs = all_edges b ?N `` {u}" "vs \<noteq> {}" by blast+
  have each: "\<exists>lu lv. level_of g u = Some lu \<and> level_of g v = Some lv" if "v \<in> vs" for v
  proof -
    have "(u, v) \<in> all_edges b ?N" using that vs(1) by simp
    from all_edges_D[OF this] obtain n i where
      n: "n \<in> ?N" and i: "Suc i < length (chain_of b n)"
      and u: "chain_of b n ! i = u" and v: "chain_of b n ! Suc i = v" by blast
    have "(u, i) \<in> all_occs b ?N" using all_occs_I[OF n, of i b] i u by simp
    moreover have "(v, Suc i) \<in> all_occs b ?N" using all_occs_I[OF n i] v by simp
    ultimately show ?thesis using lvl_of_defined by (simp add: g mk_graph_sel) blast
  qed
  obtain v where "v \<in> vs" using vs(2) by blast
  with each have "\<exists>l. level_of g u = Some l" by blast
  moreover have "\<forall>v. v \<in> vs \<longrightarrow> (\<exists>l. level_of g v = Some l)" using each by blast
  ultimately show ?thesis by blast
qed

theorem adjacency_nodes_have_level_witness:
  "\<exists>g. build_lychrel_graph 1 3 2 = Inr g \<and> adjacency g 3 = Some {6} \<and>
       (\<exists>l. level_of g 3 = Some l) \<and> (\<exists>l. level_of g 6 = Some l)"
proof -
  obtain g where g: "build_lychrel_graph 1 3 2 = Inr g" using build_total[of 1 3 1 2] by (auto simp: int_max_str_digits_def)
  have "(case build_lychrel_graph 1 3 2 of Inr g \<Rightarrow> adjacency g 3 | Inl e \<Rightarrow> None) = Some {6}"
    by code_simp
  then have a: "adjacency g 3 = Some {6}" by (simp add: g)
  from adjacency_nodes_have_level [OF g a] g a show ?thesis by blast
qed

text \<open>
  C7. In a graph that \<open>build_lychrel_graph\<close> returns for the range \<open>[s, e]\<close>, every seed
  of the range is a key of the level mapping, and its level is exactly 0.
\<close>

theorem seeds_have_level_zero:
  assumes "build_lychrel_graph s e b = Inr g" "s \<le> n" "n \<le> e"
  shows "level_of g n = Some 0"
proof -
  let ?N = "{s..e}"
  note ok = build_Inr(1)[OF assms(1)]
  have g: "g = mk_graph (all_edges b ?N) (all_occs b ?N) (flagged b ?N)"
    using assms(1) by (rule build_Inr(2))
  have n: "n \<in> ?N" using assms(2,3) by simp
  have c: "lychrel_chain n b = Inr (chain_of b n, found_of b n)"
    using ok n by (simp add: chain_ok_cases(1))
  have "0 < length (chain_of b n)" "chain_of b n ! 0 = n" using chain_shape(1,2)[OF c] by auto
  then have "(n, 0) \<in> all_occs b ?N" using all_occs_I[OF n, of 0 b] by simp
  from lvl_of_defined[OF this] show ?thesis by (simp add: g mk_graph_sel)
qed

theorem seeds_have_level_zero_witness:
  "(1::int) \<le> 2 \<and> (2::int) \<le> 3 \<and>
   (\<exists>g. build_lychrel_graph 1 3 2 = Inr g \<and> level_of g 2 = Some 0)"
proof -
  obtain g where g: "build_lychrel_graph 1 3 2 = Inr g"
    using build_total[of 1 3 1 2] by (auto simp: int_max_str_digits_def)
  have "level_of g 2 = Some 0" using seeds_have_level_zero [OF g, of 2] by simp
  with g have "\<exists>g. build_lychrel_graph 1 3 2 = Inr g \<and> level_of g 2 = Some 0" by blast
  then show ?thesis by simp
qed

text \<open>
  C5, as stated, fails: over the range \<open>[196, 196]\<close> with bound 1 the node 887 is in
  the graph with no outgoing edge, and it is neither a palindrome nor a seed. It is the
  last value of a chain that used up the bound.
\<close>

theorem sink_counterexample:
  "(case build_lychrel_graph 196 196 1 of
      Inl e \<Rightarrow> False
    | Inr g \<Rightarrow> level_of g 887 = Some 1 \<and> adjacency g 887 = None) \<and>
   lychrel_chain 196 1 = Inr ([196, 887], False) \<and>
   is_palindrome_tree 887 = Inr False \<and> \<not> is_palindrome_graph 887 \<and>
   (887::int) \<notin> {196..196}"
  by code_simp

text \<open>
  C5, amended. Every node with no outgoing edge is the last value of the chain of some
  seed of the range: the palindrome that ended the chain, or the last value of a chain
  that used up the bound (no palindrome, for a bound \<open>\<ge> 1\<close>). For a bound \<open>\<ge> 1\<close>
  such a node is never a seed of the range, palindrome or not, since every seed has a
  successor.
\<close>

theorem sink_is_chain_end:
  assumes "build_lychrel_graph s e b = Inr g" "level_of g x = Some l" "adjacency g x = None"
  shows "(\<exists>n chain found. s \<le> n \<and> n \<le> e \<and> lychrel_chain n b = Inr (chain, found) \<and>
            x = last chain \<and>
            (found \<longrightarrow> is_palindrome_tree x = Inr True) \<and>
            (\<not> found \<longrightarrow> length chain = nat b + 1 \<and>
                         (1 \<le> b \<longrightarrow> is_palindrome_tree x = Inr False))) \<and>
         (1 \<le> b \<longrightarrow> \<not> (s \<le> x \<and> x \<le> e))"
proof -
  let ?N = "{s..e}"
  note ok = build_Inr(1)[OF assms(1)]
  have g: "g = mk_graph (all_edges b ?N) (all_occs b ?N) (flagged b ?N)"
    using assms(1) by (rule build_Inr(2))
  have noedge: "\<forall>v. (x, v) \<notin> all_edges b ?N"
    using assms(3) by (simp add: g mk_graph_sel adj_of_None)
  have "(x, l) \<in> all_occs b ?N" using assms(2) by (simp add: g mk_graph_sel lvl_of_Some)
  from all_occs_D[OF this] obtain n where
    n: "n \<in> ?N" and l: "l < length (chain_of b n)" and x: "chain_of b n ! l = x" by blast
  let ?c = "chain_of b n" and ?f = "found_of b n"
  have c: "lychrel_chain n b = Inr (?c, ?f)" using ok n by (simp add: chain_ok_cases(1))
  have "\<not> Suc l < length ?c" using all_edges_I[OF n, of l b] noedge x by auto
  then have len: "length ?c = Suc l" using l by simp
  then have last: "x = last ?c" using x chain_shape(1)[OF c] by (simp add: last_conv_nth)
  have kind: "(?f \<longrightarrow> is_palindrome_tree x = Inr True) \<and>
              (\<not> ?f \<longrightarrow> length ?c = nat b + 1 \<and>
                        (1 \<le> b \<longrightarrow> is_palindrome_tree x = Inr False))"
  proof (cases ?f)
    case True
    then show ?thesis using chain_last_pal c last by simp
  next
    case False
    then have full: "length ?c = nat b + 1" by (rule chain_shape(4)[OF c])
    have "is_palindrome_tree x = Inr False" if "1 \<le> b"
    proof -
      have "1 \<le> l" using full len that by simp
      from chain_not_pal[OF c this l] False x show ?thesis by simp
    qed
    with False full show ?thesis by simp
  qed
  have first: "\<exists>n chain found. s \<le> n \<and> n \<le> e \<and> lychrel_chain n b = Inr (chain, found) \<and>
            x = last chain \<and>
            (found \<longrightarrow> is_palindrome_tree x = Inr True) \<and>
            (\<not> found \<longrightarrow> length chain = nat b + 1 \<and>
                         (1 \<le> b \<longrightarrow> is_palindrome_tree x = Inr False))"
  proof -
    have "s \<le> n" "n \<le> e" using n by auto
    then show ?thesis using c last kind by blast
  qed
  have second: "1 \<le> b \<longrightarrow> \<not> (s \<le> x \<and> x \<le> e)"
  proof (intro impI notI)
    assume b: "1 \<le> b" and "s \<le> x \<and> x \<le> e"
    then have xn: "x \<in> ?N" by simp
    let ?d = "chain_of b x" and ?h = "found_of b x"
    have d: "lychrel_chain x b = Inr (?d, ?h)" using ok xn by (simp add: chain_ok_cases(1))
    have "2 \<le> length ?d"
    proof (cases ?h)
      case True
      then show ?thesis by (rule chain_shape(5)[OF d])
    next
      case False
      then show ?thesis using chain_shape(4)[OF d] b by simp
    qed
    then have "Suc 0 < length ?d" by simp
    from all_edges_I[OF xn this] chain_shape(2)[OF d] noedge show False by simp
  qed
  from first second show ?thesis by blast
qed

theorem sink_is_chain_end_witness:
  "\<exists>g. build_lychrel_graph 196 196 1 = Inr g \<and> level_of g 887 = Some 1 \<and>
       adjacency g 887 = None \<and>
       (\<exists>n chain found. 196 \<le> n \<and> n \<le> 196 \<and> lychrel_chain n 1 = Inr (chain, found) \<and>
            887 = last chain \<and> \<not> found \<and> length chain = 2)"
proof -
  obtain g where g: "build_lychrel_graph 196 196 1 = Inr g"
    using build_total[of 196 196 3 1] by (auto simp: int_max_str_digits_def)
  have "(case build_lychrel_graph 196 196 1 of Inr g \<Rightarrow> level_of g 887 | Inl e \<Rightarrow> None) = Some 1"
    by code_simp
  then have l: "level_of g 887 = Some 1" by (simp add: g)
  have "(case build_lychrel_graph 196 196 1 of Inr g \<Rightarrow> adjacency g 887 | Inl e \<Rightarrow> Some {}) = None"
    by code_simp
  then have a: "adjacency g 887 = None" by (simp add: g)
  have np: "is_palindrome_tree 887 = Inr False" by code_simp
  from sink_is_chain_end [OF g l a] obtain n chain found where
    h: "196 \<le> n" "n \<le> 196" "lychrel_chain n 1 = Inr (chain, found)" "887 = last chain"
       "found \<longrightarrow> is_palindrome_tree 887 = Inr True" "\<not> found \<longrightarrow> length chain = nat 1 + 1"
    by blast
  from h(5,6) np have "\<not> found \<and> length chain = 2" by simp
  with h(1-4) have "\<exists>n chain found. 196 \<le> n \<and> n \<le> 196 \<and>
      lychrel_chain n 1 = Inr (chain, found) \<and> 887 = last chain \<and> \<not> found \<and> length chain = 2"
    by blast
  with g l a show ?thesis by blast
qed

section \<open>Merging, input checks and the series counter\<close>

lemma all_edges_Un: "all_edges b (A \<union> B) = all_edges b A \<union> all_edges b B"
  by (auto simp: all_edges_def)

lemma all_occs_Un: "all_occs b (A \<union> B) = all_occs b A \<union> all_occs b B"
  by (auto simp: all_occs_def)

lemma flagged_Un: "flagged b (A \<union> B) = flagged b A \<union> flagged b B"
  by (auto simp: flagged_def)

lemma merge_all_mk:
  "merge_all (map (\<lambda>(lo, hi). mk_graph (all_edges b {lo..hi}) (all_occs b {lo..hi})
                                        (flagged b {lo..hi})) rs) =
   mk_graph (all_edges b (\<Union>(lo, hi) \<in> set rs. {lo..hi}))
            (all_occs b (\<Union>(lo, hi) \<in> set rs. {lo..hi}))
            (flagged b (\<Union>(lo, hi) \<in> set rs. {lo..hi}))"
proof (induction rs)
  case Nil
  show ?case
    by (simp add: merge_all_def empty_graph_mk all_edges_def all_occs_def flagged_def)
next
  case (Cons r rs)
  obtain lo hi where r: "r = (lo, hi)" by (cases r)
  have "merge_all (map (\<lambda>(lo, hi). mk_graph (all_edges b {lo..hi}) (all_occs b {lo..hi})
                                        (flagged b {lo..hi})) (r # rs)) =
        merge_graph (mk_graph (all_edges b {lo..hi}) (all_occs b {lo..hi}) (flagged b {lo..hi}))
          (merge_all (map (\<lambda>(lo, hi). mk_graph (all_edges b {lo..hi}) (all_occs b {lo..hi})
                                        (flagged b {lo..hi})) rs))"
    by (simp add: merge_all_def r)
  then show ?case
    by (simp add: Cons.IH merge_mk r all_edges_Un all_occs_Un flagged_Un)
qed

lemma builds_map:
  assumes "\<forall>n \<in> (\<Union>(lo, hi) \<in> set rs. {lo..hi}). chain_ok b n"
  shows "map (\<lambda>(lo, hi). build_lychrel_graph lo hi b) rs =
         map Inr (map (\<lambda>(lo, hi). mk_graph (all_edges b {lo..hi}) (all_occs b {lo..hi})
                                        (flagged b {lo..hi})) rs)"
  using assms by (induction rs) (auto simp: build_abs)

text \<open>
  C4. When \<open>build_lychrel_graph\<close> returns a graph for the range \<open>[s, e]\<close>, it returns
  one for each range of any list of sub-ranges that together cover \<open>[s, e]\<close>, and
  merging those graphs (union of the edge sets, pointwise minimum of the levels, union of
  the flagged seeds) gives exactly the graph of the whole range: the same adjacency,
  levels and flagged seeds. The sub-ranges need not even be disjoint. Running the seed
  loop over the seeds of the range in any order, with or without repetition, gives that
  graph too.
\<close>

theorem build_merge:
  assumes "build_lychrel_graph s e b = Inr g"
  shows "(\<forall>rs. (\<Union>(lo, hi) \<in> set rs. {lo..hi}) = {s..e} \<longrightarrow>
            (\<exists>gs. map (\<lambda>(lo, hi). build_lychrel_graph lo hi b) rs = map Inr gs \<and>
                  merge_all gs = g)) \<and>
         (\<forall>ns. set ns = {s..e} \<longrightarrow> seeds_loop b ns empty_graph = Inr g)"
proof (intro conjI allI impI)
  note ok = build_Inr(1)[OF assms]
  have g: "g = mk_graph (all_edges b {s..e}) (all_occs b {s..e}) (flagged b {s..e})"
    using assms by (rule build_Inr(2))
  {
    fix rs :: "(int \<times> int) list"
    assume cover: "(\<Union>(lo, hi) \<in> set rs. {lo..hi}) = {s..e}"
    let ?gs = "map (\<lambda>(lo, hi). mk_graph (all_edges b {lo..hi}) (all_occs b {lo..hi})
                                        (flagged b {lo..hi})) rs"
    have "map (\<lambda>(lo, hi). build_lychrel_graph lo hi b) rs = map Inr ?gs"
      using ok cover by (intro builds_map) simp
    moreover have "merge_all ?gs = g" by (simp only: merge_all_mk cover g)
    ultimately show "\<exists>gs. map (\<lambda>(lo, hi). build_lychrel_graph lo hi b) rs = map Inr gs \<and>
                  merge_all gs = g" by blast
  }
  {
    fix ns :: "int list"
    assume "set ns = {s..e}"
    then show "seeds_loop b ns empty_graph = Inr g" using ok by (simp add: seeds_loop_empty g)
  }
qed

theorem build_merge_witness:
  "\<exists>g g1 g2. build_lychrel_graph 1 4 2 = Inr g \<and> build_lychrel_graph 1 2 2 = Inr g1 \<and>
       build_lychrel_graph 3 4 2 = Inr g2 \<and> merge_all [g1, g2] = g \<and>
       seeds_loop 2 [3, 1, 4, 2] empty_graph = Inr g"
proof -
  obtain g where g: "build_lychrel_graph 1 4 2 = Inr g" using build_total[of 1 4 1 2] by (auto simp: int_max_str_digits_def)
  have cover: "(\<Union>(lo, hi) \<in> set [(1, 2), (3, 4)]. {lo..hi}) = {1..4::int}" by auto
  have perm: "set [3, 1, 4, 2] = {1..4::int}" by auto
  note m = build_merge [OF g]
  from m cover obtain gs where
    gs: "map (\<lambda>(lo, hi). build_lychrel_graph lo hi 2) [(1, 2), (3, 4)] = map Inr gs"
        "merge_all gs = g" by blast
  from gs(1) obtain g1 g2 where
    "gs = [g1, g2]" "build_lychrel_graph 1 2 2 = Inr g1" "build_lychrel_graph 3 4 2 = Inr g2"
    by (auto simp: Cons_eq_map_conv)
  moreover from m perm have "seeds_loop 2 [3, 1, 4, 2] empty_graph = Inr g" by blast
  ultimately show ?thesis using g gs(2) by blast
qed





text \<open>
  C2. \<open>lychrel_graph_save\<close> flags a seed when its count equals the bound, and
  \<open>palindrome_iterations\<close> returns the bound both when no palindrome was found and when
  the first palindrome comes at the last step. The seed 1 with bound 1 reaches the
  palindrome 2 at step 1 and is flagged; \<open>build_lychrel_graph\<close> does not flag it. The
  seed 89 reaches its palindrome at step 24: with bound 30 it is not flagged, with bound
  24 it is.
\<close>

theorem bound_step_flagged:
  "palindrome_iterations 1 1 = 1 \<and> is_palindrome_graph (1 + reverse_int 1) \<and>
   lychrel_graph_save 1 1 1 = \<lparr>x_vals = [1], y_vals = [1], no_palindrome_nums = [1]\<rparr> \<and>
   lychrel_chain 1 1 = Inr ([1, 2], True) \<and>
   (case build_lychrel_graph 1 1 1 of Inl e \<Rightarrow> False | Inr g \<Rightarrow> lychrel_seeds g = {}) \<and>
   palindrome_iterations 89 30 = 24 \<and>
   palindrome_iterations 89 24 = 24 \<and>
   no_palindrome_nums (lychrel_graph_save 89 89 24) = [89] \<and>
   no_palindrome_nums (lychrel_graph_save 89 89 30) = []"
proof (intro conjI)
  show "palindrome_iterations 1 1 = 1" by code_simp
  show "is_palindrome_graph (1 + reverse_int 1)" by code_simp
  show "lychrel_graph_save 1 1 1 = \<lparr>x_vals = [1], y_vals = [1], no_palindrome_nums = [1]\<rparr>"
    by code_simp
  show "lychrel_chain 1 1 = Inr ([1, 2], True)" by code_simp
  show "case build_lychrel_graph 1 1 1 of Inl e \<Rightarrow> False | Inr g \<Rightarrow> lychrel_seeds g = {}"
    by code_simp
  show "palindrome_iterations 89 30 = 24" by code_simp
  show "palindrome_iterations 89 24 = 24" by code_simp
  show "no_palindrome_nums (lychrel_graph_save 89 89 24) = [89]" by code_simp
  show "no_palindrome_nums (lychrel_graph_save 89 89 30) = []" by code_simp
qed

section \<open>The two sets of primitives\<close>

text \<open>
  C8, as stated, fails: the number \<open>10 ^ 4300\<close> is not negative, and on it the
  string-based \<open>reverse_num\<close> and palindrome test raise \<open>ValueError\<close> (\<open>str\<close> refuses
  its 4301 digits), so \<open>reverse_num\<close> does not return what \<open>reverse_int\<close> returns.
\<close>

theorem primitives_agree_counterexample:
  "(0::int) \<le> 10 ^ 4300 \<and> reverse_num (10 ^ 4300) = Inl ValueError \<and>
   reverse_num (10 ^ 4300) \<noteq> Inr (reverse_int (10 ^ 4300)) \<and>
   is_palindrome_tree (10 ^ 4300) = Inl ValueError"
proof -
  have "(10::int) ^ int_max_str_digits \<le> 10 ^ 4300"
    unfolding int_max_str_digits_def by (rule order_refl)
  moreover have "\<bar>(10::int) ^ 4300\<bar> = 10 ^ 4300" by (rule abs_of_nonneg) (rule zero_le_power, simp)
  ultimately have big: "(10::int) ^ int_max_str_digits \<le> \<bar>10 ^ 4300\<bar>" by (simp only:)
  have r: "reverse_num (10 ^ 4300) = Inl ValueError" using big by (rule reverse_num_big)
  have p: "is_palindrome_tree (10 ^ 4300) = Inl ValueError"
    using big by (rule is_palindrome_tree_big)
  have z: "(0::int) \<le> 10 ^ 4300" by (rule zero_le_power) simp
  have "reverse_num (10 ^ 4300) \<noteq> Inr (reverse_int (10 ^ 4300))" unfolding r by (rule Inl_not_Inr)
  with z r p show ?thesis by (intro conjI)
qed

text \<open>
  C8, amended. For every \<open>n\<close> with \<open>0 \<le> n < 10 ^ 4300\<close>, that is of at most 4300
  digits, the string-based primitives of lychrel\_tree.py and the arithmetic primitives of
  lychrel\_graph.py compute the same functions: \<open>reverse_num\<close> returns (without raising)
  what \<open>reverse_int\<close> returns, the two palindrome tests agree, and each of them holds
  exactly when the number equals its own reversal. The arithmetic test holds exactly when
  \<open>reverse_int n = n\<close> for every \<open>n \<ge> 0\<close>. From \<open>10 ^ 4300\<close> on, the string-based
  \<open>reverse_num\<close> and palindrome test raise \<open>ValueError\<close>; the arithmetic ones return.
\<close>

theorem primitives_agree:
  "(0 \<le> n \<and> n < 10 ^ int_max_str_digits \<longrightarrow>
      reverse_num n = Inr (reverse_int n) \<and>
      is_palindrome_tree n = Inr (is_palindrome_graph n) \<and>
      is_palindrome_tree n = Inr (reverse_num n = Inr n)) \<and>
   (0 \<le> n \<longrightarrow> is_palindrome_graph n = (reverse_int n = n)) \<and>
   (10 ^ int_max_str_digits \<le> k \<longrightarrow>
      reverse_num k = Inl ValueError \<and> is_palindrome_tree k = Inl ValueError)"
proof (intro conjI impI)
  assume a: "0 \<le> n \<and> n < 10 ^ int_max_str_digits"
  then show r: "reverse_num n = Inr (reverse_int n)" by (simp add: reverse_num_int)
  show p: "is_palindrome_tree n = Inr (is_palindrome_graph n)"
    using a by (simp add: is_palindrome_agree)
  show "is_palindrome_tree n = Inr (reverse_num n = Inr n)"
    using a by (simp add: p r is_palindrome_graph_def reverse_int_def)
next
  assume "0 \<le> n"
  then show "is_palindrome_graph n = (reverse_int n = n)"
    by (simp add: is_palindrome_graph_def reverse_int_def)
next
  assume "10 ^ int_max_str_digits \<le> k"
  then have big: "10 ^ int_max_str_digits \<le> \<bar>k\<bar>" by simp
  show "reverse_num k = Inl ValueError" using big by (rule reverse_num_big)
  show "is_palindrome_tree k = Inl ValueError" using big by (rule is_palindrome_tree_big)
qed

theorem primitives_agree_witness:
  "(0::int) \<le> 120 \<and> (120::int) < 10 ^ int_max_str_digits \<and>
   reverse_num 120 = Inr 21 \<and> reverse_int 120 = 21 \<and>
   is_palindrome_tree 120 = Inr False \<and> \<not> is_palindrome_graph 120 \<and>
   reverse_num (10 ^ int_max_str_digits) = Inl ValueError \<and>
   is_palindrome_tree (10 ^ int_max_str_digits) = Inl ValueError"
proof -
  have r: "reverse_int 120 = 21" by code_simp
  have "(10::int) ^ 3 \<le> 10 ^ int_max_str_digits"
    by (intro power_increasing) (auto simp: int_max_str_digits_def)
  then have small: "(120::int) < 10 ^ int_max_str_digits" by simp
  note t = primitives_agree [where n = 120 and k = "10 ^ int_max_str_digits"]
  show ?thesis using t r small by (simp add: is_palindrome_graph_def reverse_int_def)
qed

text \<open>
  C9. Digit reversal is not an involution: reversing 120 twice gives 12. It is one on
  every \<open>n \<ge> 0\<close> whose last decimal digit is not zero.
\<close>

theorem reverse_twice:
  "reverse_int (reverse_int 120) = 12 \<and>
   (0 \<le> n \<and> n mod 10 \<noteq> 0 \<longrightarrow> reverse_int (reverse_int n) = n)"
proof
  show "reverse_int (reverse_int 120) = 12" by code_simp
  show "0 \<le> n \<and> n mod 10 \<noteq> 0 \<longrightarrow> reverse_int (reverse_int n) = n"
    using reverse_int_involution by blast
qed

theorem reverse_twice_witness:
  "(0::int) \<le> 123 \<and> (123::int) mod 10 \<noteq> 0 \<and> reverse_int (reverse_int 123) = 123"
  using reverse_twice [of 123] by simp

end
